theory Spec2Isabelle
  imports Main "HOL-Library.AList"
begin

section \<open>JavaScript values\<close>

text \<open>
  The values the service handles are what \<^verbatim>\<open>JSON.parse\<close> returns, plus \<^verbatim>\<open>undefined\<close>.
  A number is kept as the literal that identifies it, so that no floating-point
  arithmetic is needed: its canonical rendering (what \<^verbatim>\<open>String(n)\<close> returns), and \<^verbatim>\<open>-0\<close>
  for negative zero, which \<^verbatim>\<open>String\<close> renders as \<^verbatim>\<open>0\<close>. An object is an association list in
  property order. An array carries its elements and the named properties assigned to it.
  A string is the list of the bytes of its UTF-8 encoding; the program holds UTF-16 code
  units.
\<close>

datatype jsval =
    JUndefined
  | JNull
  | JBool bool
  | JNum string
  | JStr string
  | JArr "jsval list" "(string \<times> jsval) list"
  | JObj "(string \<times> jsval) list"

datatype error = FsError string | SyntaxError | TypeError

text \<open>
  The state of a promise once the event loop is idle. \<open>Pending\<close> is a promise that never
  settles: neither \<^verbatim>\<open>resolve\<close> nor \<^verbatim>\<open>reject\<close> is ever called.
\<close>

datatype 'a promise = Fulfilled 'a | Rejected error | Pending

fun show_nat :: "nat \<Rightarrow> string" where
  "show_nat n =
     (if n < 10 then [char_of (48 + n)]
      else show_nat (n div 10) @ [char_of (48 + n mod 10)])"

declare show_nat.simps [simp del]

text \<open>\<^verbatim>\<open>!!v\<close>\<close>

fun truthy :: "jsval \<Rightarrow> bool" where
  "truthy JUndefined = False"
| "truthy JNull = False"
| "truthy (JBool b) = b"
| "truthy (JNum s) = (s \<noteq> ''0'' \<and> s \<noteq> ''-0'' \<and> s \<noteq> ''NaN'')"
| "truthy (JStr s) = (s \<noteq> [])"
| "truthy (JArr xs ps) = True"
| "truthy (JObj kvs) = True"

definition lookup :: "(string \<times> jsval) list \<Rightarrow> string \<Rightarrow> jsval" where
  "lookup kvs k = (case map_of kvs k of None \<Rightarrow> JUndefined | Some v \<Rightarrow> v)"

text \<open>
  \<^verbatim>\<open>v[k]\<close>: a TypeError on \<^verbatim>\<open>null\<close> and \<^verbatim>\<open>undefined\<close>, \<^verbatim>\<open>undefined\<close> for a missing property.
  Members inherited from a prototype are not modelled: none of the names the service
  reads (\<^verbatim>\<open>name\<close>, \<^verbatim>\<open>skpm\<close>, \<^verbatim>\<open>manifest\<close>, \<^verbatim>\<open>dependencies\<close>, \<^verbatim>\<open>devDependencies\<close>, \<^verbatim>\<open>birthtimeMs\<close> and
  the picked fields) is one.
\<close>

fun get_prop :: "jsval \<Rightarrow> string \<Rightarrow> error + jsval" where
  "get_prop JUndefined k = Inl TypeError"
| "get_prop JNull k = Inl TypeError"
| "get_prop (JBool b) k = Inr JUndefined"
| "get_prop (JNum s) k = Inr JUndefined"
| "get_prop (JStr s) k =
     (if k = ''length'' then Inr (JNum (show_nat (length s)))
      else case find (\<lambda>i. show_nat i = k) [0..<length s] of
             Some i \<Rightarrow> Inr (JStr [s ! i])
           | None \<Rightarrow> Inr JUndefined)"
| "get_prop (JArr xs ps) k =
     (if k = ''length'' then Inr (JNum (show_nat (length xs)))
      else case find (\<lambda>i. show_nat i = k) [0..<length xs] of
             Some i \<Rightarrow> Inr (xs ! i)
           | None \<Rightarrow> Inr (lookup ps k))"
| "get_prop (JObj kvs) k = Inr (lookup kvs k)"

text \<open>\<^verbatim>\<open>v[k]\<close> where the access cannot throw: \<open>v\<close> is neither \<^verbatim>\<open>null\<close> nor \<^verbatim>\<open>undefined\<close>.\<close>

definition read_prop :: "jsval \<Rightarrow> string \<Rightarrow> jsval" where
  "read_prop v k = (case get_prop v k of Inl e \<Rightarrow> JUndefined | Inr x \<Rightarrow> x)"

text \<open>
  \<^verbatim>\<open>v.k = x\<close> in strict mode (the file is an ES module), for a name \<open>k\<close> that is neither an
  array index nor \<^verbatim>\<open>length\<close>: the only names the service assigns are the three reserved
  ones. A primitive cannot take a property.
\<close>

fun set_prop :: "jsval \<Rightarrow> string \<Rightarrow> jsval \<Rightarrow> error + jsval" where
  "set_prop (JObj kvs) k x = Inr (JObj (AList.update k x kvs))"
| "set_prop (JArr xs ps) k x = Inr (JArr xs (AList.update k x ps))"
| "set_prop v k x = Inl TypeError"

text \<open>\<^verbatim>\<open>Object.keys(v)\<close> for a value that is neither \<^verbatim>\<open>null\<close> nor \<^verbatim>\<open>undefined\<close>.\<close>

fun Object_keys :: "jsval \<Rightarrow> string list" where
  "Object_keys (JObj kvs) = map fst kvs"
| "Object_keys (JArr xs ps) = map show_nat [0..<length xs] @ map fst ps"
| "Object_keys (JStr s) = map show_nat [0..<length s]"
| "Object_keys v = []"

fun join_with :: "string \<Rightarrow> string list \<Rightarrow> string" where
  "join_with sep [] = []"
| "join_with sep [x] = x"
| "join_with sep (x # y # ys) = x @ sep @ join_with sep (y # ys)"

text \<open>The results of a list of steps, or the first error among them.\<close>

fun sequence :: "(error + 'a) list \<Rightarrow> error + 'a list" where
  "sequence [] = Inr []"
| "sequence (x # xs) =
     (case x of
        Inl e \<Rightarrow> Inl e
      | Inr v \<Rightarrow> (case sequence xs of Inl e \<Rightarrow> Inl e | Inr vs \<Rightarrow> Inr (v # vs)))"

text \<open>
  The conversion to a string that a computed property name \<^verbatim>\<open>[v]\<close> applies to \<open>v\<close>. An
  object is converted by its \<^verbatim>\<open>toString\<close> method and then by its \<^verbatim>\<open>valueOf\<close> method. A
  property that was parsed or assigned is never callable: an object with a \<^verbatim>\<open>toString\<close>
  property of its own has no callable \<^verbatim>\<open>toString\<close>, its \<^verbatim>\<open>valueOf\<close> is not callable or is the
  inherited one, which returns the object, and the conversion throws a TypeError.
  Without such a property an object has the inherited \<^verbatim>\<open>toString\<close>; that of an array
  joins the strings of its elements (empty for \<^verbatim>\<open>null\<close> and \<^verbatim>\<open>undefined\<close>), unless a \<^verbatim>\<open>join\<close>
  property of its own, which is not callable, hides the inherited \<^verbatim>\<open>join\<close>.
\<close>

fun to_string :: "jsval \<Rightarrow> error + string" where
  "to_string JUndefined = Inr ''undefined''"
| "to_string JNull = Inr ''null''"
| "to_string (JBool b) = Inr (if b then ''true'' else ''false'')"
| "to_string (JNum s) = Inr (if s = ''-0'' then ''0'' else s)"
| "to_string (JStr s) = Inr s"
| "to_string (JArr xs ps) =
     (if ''toString'' \<in> set (map fst ps) then Inl TypeError
      else if ''join'' \<in> set (map fst ps) then Inr ''[object Array]''
      else case sequence
                  (map (\<lambda>x. if x = JNull \<or> x = JUndefined then Inr [] else to_string x) xs) of
             Inl e \<Rightarrow> Inl e
           | Inr strs \<Rightarrow> Inr (join_with '','' strs))"
| "to_string (JObj kvs) =
     (if ''toString'' \<in> set (map fst kvs) then Inl TypeError else Inr ''[object Object]'')"

section \<open>The runtime and the file system\<close>

text \<open>
  What the service takes from its platform: the JSON codec, the file system and the
  base64 rendering of a file. \<open>JSON_parse\<close> is \<open>None\<close> where \<^verbatim>\<open>JSON.parse\<close> throws its
  SyntaxError, \<open>JSON_stringify\<close> is \<open>None\<close> where \<^verbatim>\<open>JSON.stringify\<close> returns no text.
  A file is its content, or the code of the error that reading it fails with;
  \<open>write_error\<close> is the code of the error that writing a path fails with, if any.
\<close>

record world =
  JSON_parse :: "string \<Rightarrow> jsval option"
  JSON_stringify :: "jsval \<Rightarrow> string option"
  base64 :: "string \<Rightarrow> string"
  files :: "string \<Rightarrow> string + string"
  stats :: "string \<Rightarrow> string + jsval"
  write_error :: "string \<Rightarrow> string option"

text \<open>
  \<^verbatim>\<open>path.join\<close> of the POSIX \<^verbatim>\<open>path\<close> module (the application runs on macOS): the segments
  that are not empty are joined by the separator, and the joined path is normalised.
  The normalisation splits the path at the separators, drops the empty pieces and the
  \<^verbatim>\<open>.\<close> pieces, resolves each \<^verbatim>\<open>..\<close> against the piece before it (keeping it only in a relative
  path that has nothing left to go up from), and keeps whether the path is absolute and
  whether it ends with a separator.
\<close>

fun split_on :: "char \<Rightarrow> string \<Rightarrow> string list" where
  "split_on c [] = [[]]"
| "split_on c (x # xs) =
     (if x = c then [] # split_on c xs
      else (case split_on c xs of
              [] \<Rightarrow> [[x]]
            | piece # pieces \<Rightarrow> (x # piece) # pieces))"

text \<open>The pieces kept so far are in \<open>res\<close>, the last one first.\<close>

fun normalize_pieces :: "bool \<Rightarrow> string list \<Rightarrow> string list \<Rightarrow> string list" where
  "normalize_pieces allowAboveRoot res [] = rev res"
| "normalize_pieces allowAboveRoot res (piece # pieces) =
     (if piece = [] \<or> piece = ''.'' then normalize_pieces allowAboveRoot res pieces
      else if piece = ''..'' then
        (case res of
           [] \<Rightarrow>
             normalize_pieces allowAboveRoot (if allowAboveRoot then [''..''] else []) pieces
         | prev # below \<Rightarrow>
             (if prev = ''..''
              then normalize_pieces allowAboveRoot
                     (if allowAboveRoot then ''..'' # res else res) pieces
              else normalize_pieces allowAboveRoot below pieces))
      else normalize_pieces allowAboveRoot (piece # res) pieces)"

definition normalize :: "string \<Rightarrow> string" where
  "normalize path =
     (if path = [] then ''.''
      else
        (let isAbsolute = (hd path = CHR ''/'');
             trailingSeparator = (last path = CHR ''/'');
             normalized =
               join_with ''/'' (normalize_pieces (\<not> isAbsolute) [] (split_on CHR ''/'' path))
         in if normalized = []
            then (if isAbsolute then ''/'' else if trailingSeparator then ''./'' else ''.'')
            else (if isAbsolute then ''/'' else []) @ normalized
                   @ (if trailingSeparator then ''/'' else [])))"

definition path_join :: "string list \<Rightarrow> string" where
  "path_join segs =
     (let joined = join_with ''/'' (filter (\<lambda>s. s \<noteq> []) segs)
      in if joined = [] then ''.'' else normalize joined)"

text \<open>
  \<^verbatim>\<open>fs.readFile(p, 'utf8', (err, data) => err ? reject(err) : resolve(JSON.parse(data)))\<close>.
  The callback runs outside the promise's executor: when \<^verbatim>\<open>JSON.parse\<close> throws there,
  the exception leaves the callback and the promise is never settled.
\<close>

definition read_json :: "world \<Rightarrow> string \<Rightarrow> jsval promise" where
  "read_json w p =
     (case files w p of
        Inl code \<Rightarrow> Rejected (FsError code)
      | Inr data \<Rightarrow>
          (case JSON_parse w data of
             None \<Rightarrow> Pending
           | Some v \<Rightarrow> Fulfilled v))"

section \<open>Manifest reader\<close>

definition loadProjectFSStat :: "world \<Rightarrow> string \<Rightarrow> jsval promise" where
  "loadProjectFSStat w projectPath =
     (case stats w projectPath of
        Inl code \<Rightarrow> Rejected (FsError code)
      | Inr data \<Rightarrow> Fulfilled data)"

definition loadPackageJson :: "world \<Rightarrow> string \<Rightarrow> jsval promise" where
  "loadPackageJson w projectPath = read_json w (path_join [projectPath, ''package.json''])"

text \<open>
  \<^verbatim>\<open>packageJson.skpm.manifest\<close> is evaluated inside the executor, where a TypeError
  rejects the promise; \<^verbatim>\<open>path.join\<close> throws a TypeError on a segment that is not a string.
\<close>

definition manifest_path :: "string \<Rightarrow> jsval \<Rightarrow> error + string" where
  "manifest_path projectPath packageJson =
     (case get_prop packageJson ''skpm'' of
        Inl e \<Rightarrow> Inl e
      | Inr skpm \<Rightarrow>
          (case get_prop skpm ''manifest'' of
             Inl e \<Rightarrow> Inl e
           | Inr (JStr m) \<Rightarrow> Inr (path_join [projectPath, m])
           | Inr _ \<Rightarrow> Inl TypeError))"

definition loadManifestJson :: "world \<Rightarrow> string \<Rightarrow> jsval \<Rightarrow> jsval promise" where
  "loadManifestJson w projectPath packageJson =
     (case manifest_path projectPath packageJson of
        Inl e \<Rightarrow> Rejected e
      | Inr p \<Rightarrow> read_json w p)"

definition loadIcon :: "world \<Rightarrow> string \<Rightarrow> jsval promise" where
  "loadIcon w projectPath =
     (case files w (path_join [projectPath, ''assets'', ''icon.png'']) of
        Inl code \<Rightarrow> Rejected (FsError code)
      | Inr data \<Rightarrow> Fulfilled (JStr (base64 w data)))"

section \<open>Project writer\<close>

text \<open>
  \<^verbatim>\<open>fs.writeFile(p, text, err => err ? reject(err) : resolve(json))\<close>: a full overwrite of
  the file. Without a text to write (\<^verbatim>\<open>JSON.stringify(undefined)\<close>), \<^verbatim>\<open>fs.writeFile\<close>
  throws its TypeError inside the executor.
\<close>

definition write_json :: "world \<Rightarrow> string \<Rightarrow> jsval \<Rightarrow> world \<times> jsval promise" where
  "write_json w p json =
     (case JSON_stringify w json of
        None \<Rightarrow> (w, Rejected TypeError)
      | Some text \<Rightarrow>
          (case write_error w p of
             Some code \<Rightarrow> (w, Rejected (FsError code))
           | None \<Rightarrow> (w\<lparr>files := (files w)(p := Inr text)\<rparr>, Fulfilled json)))"

definition writePackageJson :: "world \<Rightarrow> string \<Rightarrow> jsval \<Rightarrow> world \<times> jsval promise" where
  "writePackageJson w projectPath json =
     write_json w (path_join [projectPath, ''package.json'']) json"

definition writeManifestJson ::
  "world \<Rightarrow> string \<Rightarrow> jsval \<Rightarrow> jsval \<Rightarrow> world \<times> jsval promise" where
  "writeManifestJson w projectPath packageJson json =
     (case manifest_path projectPath packageJson of
        Inl e \<Rightarrow> (w, Rejected e)
      | Inr p \<Rightarrow> write_json w p json)"

section \<open>Project loader\<close>

text \<open>
  \<^verbatim>\<open>promise.catch(console.error)\<close>: a rejection becomes \<^verbatim>\<open>undefined\<close>, the value
  \<^verbatim>\<open>console.error\<close> returns. \<open>None\<close> is a promise that stays pending.
\<close>

fun catch_console_error :: "jsval promise \<Rightarrow> jsval option" where
  "catch_console_error (Fulfilled v) = Some v"
| "catch_console_error (Rejected e) = Some JUndefined"
| "catch_console_error Pending = None"

text \<open>The body of the \<^verbatim>\<open>then\<close> after \<^verbatim>\<open>Promise.all\<close>: three assignments to the descriptor.\<close>

definition merge_project :: "jsval \<Rightarrow> jsval \<Rightarrow> jsval \<Rightarrow> jsval \<Rightarrow> error + jsval" where
  "merge_project json manifest icon stat =
     (case set_prop json ''__skpm_manifest'' manifest of
        Inl e \<Rightarrow> Inl e
      | Inr json1 \<Rightarrow>
          (case set_prop json1 ''__skpm_icon'' icon of
             Inl e \<Rightarrow> Inl e
           | Inr json2 \<Rightarrow>
               (case get_prop (if truthy stat then stat else JObj []) ''birthtimeMs'' of
                  Inl e \<Rightarrow> Inl e
                | Inr createdAt \<Rightarrow> set_prop json2 ''__skpm_createdAt'' createdAt)))"

definition loadProject :: "world \<Rightarrow> string \<Rightarrow> jsval promise" where
  "loadProject w projectPath =
     (case loadPackageJson w projectPath of
        Rejected e \<Rightarrow> Rejected e
      | Pending \<Rightarrow> Pending
      | Fulfilled json \<Rightarrow>
          (case (catch_console_error (loadManifestJson w projectPath json),
                 catch_console_error (loadIcon w projectPath),
                 catch_console_error (loadProjectFSStat w projectPath)) of
             (Some manifest, Some icon, Some stat) \<Rightarrow>
               (case merge_project json manifest icon stat of
                  Inl e \<Rightarrow> Rejected e
                | Inr project \<Rightarrow> Fulfilled project)
           | _ \<Rightarrow> Pending))"

section \<open>The \<^verbatim>\<open>async/map\<close> combinator\<close>

text \<open>
  \<^verbatim>\<open>results[index] = v\<close> on a JavaScript array: a write past the end extends the array.
  A hole reads as \<^verbatim>\<open>undefined\<close> and \<^verbatim>\<open>filter\<close> skips it as a falsy value is skipped.
\<close>

definition array_set :: "jsval list \<Rightarrow> nat \<Rightarrow> jsval \<Rightarrow> jsval list" where
  "array_set xs i v =
     (if i < length xs then xs[i := v]
      else xs @ replicate (i - length xs) JUndefined @ [v])"

text \<open>
  All iteratees are started at once. The outcome of the iteratee on item \<open>i\<close> is \<open>cbs ! i\<close>:
  \<open>Fulfilled v\<close> for \<^verbatim>\<open>callback(null, v)\<close>, \<open>Rejected e\<close> for \<^verbatim>\<open>callback(e)\<close>, \<open>Pending\<close> when it
  never calls back. The schedule lists the items in the order in which they call back.
  Each call stores its value at the item's own index; the first error, or the last
  success, calls the final callback, once: the result is the pair of its arguments, or
  \<open>None\<close> when it is never called.
\<close>

fun asyncMap_run ::
  "jsval promise list \<Rightarrow> nat list \<Rightarrow> jsval list \<Rightarrow> nat \<Rightarrow> (error option \<times> jsval list) option" where
  "asyncMap_run cbs [] results completed = None"
| "asyncMap_run cbs (i # sched) results completed =
     (if i < length cbs then
        (case cbs ! i of
           Pending \<Rightarrow> asyncMap_run cbs sched results completed
         | Rejected e \<Rightarrow> Some (Some e, array_set results i JUndefined)
         | Fulfilled v \<Rightarrow>
             (if Suc completed = length cbs then Some (None, array_set results i v)
              else asyncMap_run cbs sched (array_set results i v) (Suc completed)))
      else asyncMap_run cbs sched results completed)"

definition asyncMap ::
  "jsval promise list \<Rightarrow> nat list \<Rightarrow> (error option \<times> jsval list) option" where
  "asyncMap cbs sched = (if cbs = [] then Some (None, []) else asyncMap_run cbs sched [] 0)"

text \<open>A schedule of \<open>n\<close> items: every item once, in any order.\<close>

definition schedule :: "nat \<Rightarrow> nat list \<Rightarrow> bool" where
  "schedule n sched \<longleftrightarrow> distinct sched \<and> set sched = set [0..<n]"

text \<open>Item \<open>i\<close> calls back without an error.\<close>

definition is_fulfilled :: "jsval promise list \<Rightarrow> nat \<Rightarrow> bool" where
  "is_fulfilled cbs i \<longleftrightarrow>
     i < length cbs \<and> (case cbs ! i of Fulfilled v \<Rightarrow> True | Rejected e \<Rightarrow> False | Pending \<Rightarrow> False)"

section \<open>Project set aggregator\<close>

text \<open>
  \<^verbatim>\<open>x.name\<close> as a property key, for a value that passed the truthiness filter (on which
  the property access cannot throw); the conversion of the name to a key can throw.
\<close>

definition name_key :: "jsval \<Rightarrow> error + string" where
  "name_key x = to_string (read_prop x ''name'')"

text \<open>
  \<^verbatim>\<open>xs.reduce((map, x) => ({...map, [x.name]: x}), {})\<close>: a key that is already there
  keeps its place and takes the new value, a new key goes to the end. (The engine
  lists keys that are array indices first; the order of the keys plays no role in the
  statements below.) The fold stops at the first name whose conversion throws.
\<close>

fun by_name_from :: "(string \<times> jsval) list \<Rightarrow> jsval list \<Rightarrow> error + (string \<times> jsval) list" where
  "by_name_from m [] = Inr m"
| "by_name_from m (x # xs) =
     (case name_key x of
        Inl e \<Rightarrow> Inl e
      | Inr k \<Rightarrow> by_name_from (AList.update k x m) xs)"

definition by_name :: "jsval list \<Rightarrow> error + (string \<times> jsval) list" where
  "by_name xs = by_name_from [] xs"

text \<open>
  The iteratee: \<^verbatim>\<open>loadProject(p).then(json => callback(null, json)).catch(err => callback(null, null))\<close>.
\<close>

definition loadProjects_iteratee :: "world \<Rightarrow> string \<Rightarrow> jsval promise" where
  "loadProjects_iteratee w projectPath =
     (case loadProject w projectPath of
        Fulfilled json \<Rightarrow> Fulfilled json
      | Rejected e \<Rightarrow> Fulfilled JNull
      | Pending \<Rightarrow> Pending)"

text \<open>
  The final callback rejects only on \<^verbatim>\<open>!results\<close>, and \<^verbatim>\<open>results\<close> is always an array.
  It runs inside the \<^verbatim>\<open>then\<close> or the \<^verbatim>\<open>catch\<close> of the iteratee that completes last: when the
  fold throws, \<^verbatim>\<open>resolve\<close> is not reached, the \<^verbatim>\<open>catch\<close> of the iteratee calls a callback that
  was already called, which throws again, and the promise stays pending.
\<close>

definition loadProjects ::
  "world \<Rightarrow> nat list \<Rightarrow> string list \<Rightarrow> (string \<times> jsval) list promise" where
  "loadProjects w sched projectPaths =
     (case asyncMap (map (loadProjects_iteratee w) projectPaths) sched of
        None \<Rightarrow> Pending
      | Some (err, results) \<Rightarrow>
          (case by_name (filter truthy results) of
             Inl e \<Rightarrow> Pending
           | Inr projects \<Rightarrow> Fulfilled projects))"

section \<open>Dependency metadata reader\<close>

datatype DependencyLocation = Dependencies | DevDependencies

fun location_name :: "DependencyLocation \<Rightarrow> string" where
  "location_name Dependencies = ''dependencies''"
| "location_name DevDependencies = ''devDependencies''"

record QueuedDependency =
  name :: string
  location :: DependencyLocation

fun has_prop :: "jsval \<Rightarrow> string \<Rightarrow> bool" where
  "has_prop (JObj kvs) k = (k \<in> set (map fst kvs))"
| "has_prop (JArr xs ps) k =
     (k = ''length'' \<or> k \<in> set (map show_nat [0..<length xs]) \<or> k \<in> set (map fst ps))"
| "has_prop (JStr s) k = (k = ''length'' \<or> k \<in> set (map show_nat [0..<length s]))"
| "has_prop v k = False"

text \<open>
  Modelled from the spec: \<^verbatim>\<open>pick\<close> of \<^verbatim>\<open>../utils\<close>, which is not among the sources. The
  spec has it project a descriptor onto a fixed field subset, absent fields staying
  absent: the properties of \<open>obj\<close> among \<open>keys\<close>, in the order of \<open>keys\<close>.
\<close>

definition pick :: "jsval \<Rightarrow> string list \<Rightarrow> (string \<times> jsval) list" where
  "pick obj keys =
     map (\<lambda>k. (k, read_prop obj k)) (filter (has_prop obj) keys)"

text \<open>
  The location always reaches this function from a queue entry, so its default value
  is not modelled. As in \<open>read_json\<close>, an exception of \<^verbatim>\<open>JSON.parse\<close> leaves the callback
  of \<^verbatim>\<open>fs.readFile\<close> and the promise stays pending.
\<close>

definition dependencyPath :: "string \<Rightarrow> string \<Rightarrow> string" where
  "dependencyPath projectPath dependencyName =
     path_join [projectPath, ''node_modules'', dependencyName, ''package.json'']"

definition loadProjectDependency ::
  "world \<Rightarrow> string \<Rightarrow> string \<Rightarrow> DependencyLocation \<Rightarrow> jsval promise" where
  "loadProjectDependency w projectPath dependencyName dependencyLocation =
     (case files w (dependencyPath projectPath dependencyName) of
        Inl code \<Rightarrow> (if code = ''ENOENT'' then Fulfilled JNull else Rejected (FsError code))
      | Inr data \<Rightarrow>
          (case JSON_parse w data of
             None \<Rightarrow> Pending
           | Some packageJson \<Rightarrow>
               Fulfilled (JObj
                 (AList.update ''location'' (JStr (location_name dependencyLocation))
                   (AList.update ''status'' (JStr ''idle'')
                     (pick packageJson
                        [''name'', ''description'', ''keywords'', ''version'', ''homepage'',
                         ''license'', ''repository'']))))))"

section \<open>Dependency set aggregator\<close>

definition loadProjectDependencies ::
  "world \<Rightarrow> nat list \<Rightarrow> string \<Rightarrow> QueuedDependency list \<Rightarrow> jsval list promise" where
  "loadProjectDependencies w sched projectPath dependencies =
     (case asyncMap
             (map (\<lambda>q. loadProjectDependency w projectPath (name q) (location q)) dependencies)
             sched of
        None \<Rightarrow> Pending
      | Some (Some err, results) \<Rightarrow> Rejected err
      | Some (None, results) \<Rightarrow> Fulfilled (filter truthy results))"

text \<open>\<^verbatim>\<open>Object.keys(v || {})\<close>\<close>

definition keys_or_empty :: "jsval \<Rightarrow> string list" where
  "keys_or_empty v = Object_keys (if truthy v then v else JObj [])"

text \<open>
  The queue computed inside the executor of the inner promise, where a TypeError (the
  descriptor is \<^verbatim>\<open>null\<close>) rejects that promise.
\<close>

definition dependency_queue :: "jsval \<Rightarrow> error + QueuedDependency list" where
  "dependency_queue packageJson =
     (case get_prop packageJson ''dependencies'' of
        Inl e \<Rightarrow> Inl e
      | Inr d \<Rightarrow>
          (case get_prop packageJson ''devDependencies'' of
             Inl e \<Rightarrow> Inl e
           | Inr dd \<Rightarrow>
               (let deps = keys_or_empty d; devDeps = keys_or_empty dd
                in Inr (map (\<lambda>n. \<lparr>name = n,
                                   location = (if n \<in> set devDeps then DevDependencies
                                               else Dependencies)\<rparr>)
                          (deps @ devDeps)))))"

text \<open>The names a descriptor declares, in the order of the queue.\<close>

definition declared :: "jsval \<Rightarrow> string list" where
  "declared packageJson =
     keys_or_empty (read_prop packageJson ''dependencies'')
       @ keys_or_empty (read_prop packageJson ''devDependencies'')"

text \<open>
  The inner promise is resolved in the \<^verbatim>\<open>then\<close> of the batch; that \<^verbatim>\<open>then\<close> has no
  rejection handler and \<^verbatim>\<open>reject\<close> is never called, so a rejected batch leaves the
  inner promise, and with it the result, pending. So does a fold that throws: the
  exception rejects the promise of the \<^verbatim>\<open>then\<close>, which nothing observes.
\<close>

definition loadAllProjectDependencies ::
  "world \<Rightarrow> nat list \<Rightarrow> string \<Rightarrow> (string \<times> jsval) list promise" where
  "loadAllProjectDependencies w sched projectPath =
     (case loadPackageJson w projectPath of
        Rejected e \<Rightarrow> Rejected e
      | Pending \<Rightarrow> Pending
      | Fulfilled packageJson \<Rightarrow>
          (case dependency_queue packageJson of
             Inl e \<Rightarrow> Rejected e
           | Inr dependencies \<Rightarrow>
               (case loadProjectDependencies w sched projectPath dependencies of
                  Fulfilled dependenciesFromPackageJson \<Rightarrow>
                    (case by_name dependenciesFromPackageJson of
                       Inl e \<Rightarrow> Pending
                     | Inr dependenciesByName \<Rightarrow> Fulfilled dependenciesByName)
                | Rejected e \<Rightarrow> Pending
                | Pending \<Rightarrow> Pending)))"

section \<open>Auxiliary notions for the statements\<close>

text \<open>The three keys under which \<open>loadProject\<close> stores what it merges.\<close>

definition reserved_keys :: "string list" where
  "reserved_keys = [''__skpm_manifest'', ''__skpm_icon'', ''__skpm_createdAt'']"

text \<open>The outcome of the metadata reader on each entry of a queue.\<close>

definition dependency_items ::
  "world \<Rightarrow> string \<Rightarrow> QueuedDependency list \<Rightarrow> jsval promise list" where
  "dependency_items w p q = map (\<lambda>d. loadProjectDependency w p (name d) (location d)) q"

text \<open>
  The installed descriptor of a dependency, when its file is read and parsed; and a
  dependency whose installed descriptor file does not exist.
\<close>

definition installed :: "world \<Rightarrow> string \<Rightarrow> string \<Rightarrow> jsval option" where
  "installed w p n =
     (case files w (dependencyPath p n) of
        Inl code \<Rightarrow> None
      | Inr data \<Rightarrow> JSON_parse w data)"


section \<open>The aggregation as the specification words it\<close>

text \<open>
  The specification folds the successes into the mapping in completion order: of two
  paths that yield the same name, the one that completes later wins. This is that fold,
  over the items in the order of the schedule, for comparison with \<open>loadProjects\<close>.
\<close>

definition settled_value :: "jsval promise \<Rightarrow> jsval" where
  "settled_value c = (case c of Fulfilled v \<Rightarrow> v | Rejected e \<Rightarrow> JNull | Pending \<Rightarrow> JNull)"

definition loadProjects_in_completion_order ::
  "world \<Rightarrow> nat list \<Rightarrow> string list \<Rightarrow> (string \<times> jsval) list promise" where
  "loadProjects_in_completion_order w sched projectPaths =
     (case asyncMap (map (loadProjects_iteratee w) projectPaths) sched of
        None \<Rightarrow> Pending
      | Some (err, results) \<Rightarrow>
          (case by_name (filter truthy
                  (map (\<lambda>i. settled_value (loadProjects_iteratee w (projectPaths ! i))) sched)) of
             Inl e \<Rightarrow> Pending
           | Inr projects \<Rightarrow> Fulfilled projects))"

section \<open>The JSON codec of the engine\<close>

text \<open>
  \<^verbatim>\<open>JSON.stringify(v, null, 2)\<close> and \<^verbatim>\<open>JSON.parse(text)\<close> as ECMAScript defines them, on the
  values above. The world above takes the codec as a parameter; this is the codec of the
  engine, for the statements that depend on what it does. A string is the list of the
  bytes of its UTF-8 encoding, the form in which \<^verbatim>\<open>fs.writeFile\<close> stores a text and from
  which \<^verbatim>\<open>fs.readFile(p, 'utf8', \<dots>)\<close> decodes it.
\<close>

subsection \<open>Strings\<close>

text \<open>
  \<^verbatim>\<open>QuoteJSONString\<close>: the quotation mark, the reverse solidus and the control characters
  are escaped by a reverse solidus: the backspace, the tab, the line feed, the form
  feed and the carriage return by their letter, the other control characters by \<^verbatim>\<open>u00\<close>
  and two lower-case hexadecimal digits. Every other character stands for itself; the
  bytes of a character beyond ASCII are all above \<^verbatim>\<open>0x7F\<close> and so are never escaped.
\<close>

definition hex_digit :: "nat \<Rightarrow> char" where
  "hex_digit n = (if n < 10 then char_of (48 + n) else char_of (87 + n))"

definition escape_char :: "char \<Rightarrow> string" where
  "escape_char c =
     (if c = CHR 0x22 then [CHR 0x5C, CHR 0x22]
      else if c = CHR 0x5C then [CHR 0x5C, CHR 0x5C]
      else if c = CHR 0x08 then [CHR 0x5C, CHR ''b'']
      else if c = CHR 0x09 then [CHR 0x5C, CHR ''t'']
      else if c = CHR 0x0A then [CHR 0x5C, CHR ''n'']
      else if c = CHR 0x0C then [CHR 0x5C, CHR ''f'']
      else if c = CHR 0x0D then [CHR 0x5C, CHR ''r'']
      else if (of_char c :: nat) < 32 then
        [CHR 0x5C, CHR ''u'', CHR ''0'', CHR ''0'',
         hex_digit ((of_char c :: nat) div 16), hex_digit ((of_char c :: nat) mod 16)]
      else [c])"

definition quote :: "string \<Rightarrow> string" where
  "quote s = CHR 0x22 # concat (map escape_char s) @ [CHR 0x22]"

text \<open>
  The string of a JSON text, read from after its opening quotation mark up to its
  closing one: \<open>string_body s\<close> is the string and the text after it. A control character
  is not allowed in it. An escape is a reverse solidus followed by a quotation mark, a
  reverse solidus, a solidus, one of the letters \<^verbatim>\<open>b f n r t\<close>, or \<^verbatim>\<open>u\<close> and four hexadecimal
  digits of either case, which give a UTF-16 code unit. Two escapes that form a
  surrogate pair denote one character; the bytes of a lone surrogate are those of the
  three-byte form, a choice of this model, in which the engine's lone code unit has no
  other image.
\<close>

definition hex_value :: "char \<Rightarrow> nat option" where
  "hex_value c =
     (let n = of_char c :: nat
      in if 48 \<le> n \<and> n \<le> 57 then Some (n - 48)
         else if 97 \<le> n \<and> n \<le> 102 then Some (n - 87)
         else if 65 \<le> n \<and> n \<le> 70 then Some (n - 55)
         else None)"

definition hex4 :: "string \<Rightarrow> nat option" where
  "hex4 s =
     (case s of
        a # b # c # d # rest \<Rightarrow>
          (case (hex_value a, hex_value b, hex_value c, hex_value d) of
             (Some x, Some y, Some z, Some u) \<Rightarrow> Some (((x * 16 + y) * 16 + z) * 16 + u)
           | _ \<Rightarrow> None)
      | _ \<Rightarrow> None)"

definition utf8 :: "nat \<Rightarrow> string" where
  "utf8 n =
     (if n < 128 then [char_of n]
      else if n < 2048 then [char_of (192 + n div 64), char_of (128 + n mod 64)]
      else if n < 65536 then
        [char_of (224 + n div 4096), char_of (128 + n div 64 mod 64), char_of (128 + n mod 64)]
      else
        [char_of (240 + n div 262144), char_of (128 + n div 4096 mod 64),
         char_of (128 + n div 64 mod 64), char_of (128 + n mod 64)])"

definition unicode_escape :: "string \<Rightarrow> (string \<times> nat) option" where
  "unicode_escape s =
     (case hex4 s of
        None \<Rightarrow> None
      | Some n \<Rightarrow>
          (if 55296 \<le> n \<and> n < 56320 then
             (case drop 4 s of
                b # u # rest \<Rightarrow>
                  (if b = CHR 0x5C \<and> u = CHR ''u'' then
                     (case hex4 rest of
                        Some m \<Rightarrow>
                          (if 56320 \<le> m \<and> m < 57344
                           then Some (utf8 (65536 + (n - 55296) * 1024 + (m - 56320)), 10)
                           else Some (utf8 n, 4))
                      | None \<Rightarrow> Some (utf8 n, 4))
                   else Some (utf8 n, 4))
              | _ \<Rightarrow> Some (utf8 n, 4))
           else Some (utf8 n, 4)))"

definition unescape :: "char \<Rightarrow> char option" where
  "unescape e =
     (if e = CHR 0x22 \<or> e = CHR 0x5C \<or> e = CHR ''/'' then Some e
      else if e = CHR ''b'' then Some (CHR 0x08)
      else if e = CHR ''f'' then Some (CHR 0x0C)
      else if e = CHR ''n'' then Some (CHR 0x0A)
      else if e = CHR ''r'' then Some (CHR 0x0D)
      else if e = CHR ''t'' then Some (CHR 0x09)
      else None)"

fun string_body :: "string \<Rightarrow> (string \<times> string) option" where
  "string_body [] = None"
| "string_body [c] = (if c = CHR 0x22 then Some ([], []) else None)"
| "string_body (c # e # cs) =
     (if c = CHR 0x22 then Some ([], e # cs)
      else if c = CHR 0x5C then
        (if e = CHR ''u'' then
           (case unicode_escape cs of
              None \<Rightarrow> None
            | Some (bytes, k) \<Rightarrow>
                (case string_body (drop k cs) of
                   None \<Rightarrow> None
                 | Some (s, r) \<Rightarrow> Some (bytes @ s, r)))
         else
           (case unescape e of
              None \<Rightarrow> None
            | Some x \<Rightarrow>
                (case string_body cs of
                   None \<Rightarrow> None
                 | Some (s, r) \<Rightarrow> Some (x # s, r))))
      else if (of_char c :: nat) < 32 then None
      else (case string_body (e # cs) of
              None \<Rightarrow> None
            | Some (s, r) \<Rightarrow> Some (c # s, r)))"

subsection \<open>Numbers\<close>

text \<open>
  A numeric text of the JSON grammar: an optional minus sign, an integer part without
  a leading zero, an optional fraction and an optional exponent. \<open>scan_number s\<close> is the
  longest such text that \<open>s\<close> starts with and what follows it; a fraction or an exponent
  that is begun and has no digit is a syntax error.
\<close>

definition is_digit :: "char \<Rightarrow> bool" where
  "is_digit c \<longleftrightarrow> 48 \<le> (of_char c :: nat) \<and> (of_char c :: nat) \<le> 57"

definition scan_exp :: "string \<Rightarrow> string \<Rightarrow> (string \<times> string) option" where
  "scan_exp acc s =
     (case s of
        [] \<Rightarrow> Some (acc, [])
      | c # t \<Rightarrow>
          (if c = CHR ''e'' \<or> c = CHR ''E'' then
             (let sg = (case t of [] \<Rightarrow> [] | x # u \<Rightarrow> if x = CHR ''+'' \<or> x = CHR ''-'' then [x] else []);
                  t' = drop (length sg) t;
                  ds = takeWhile is_digit t'
              in if ds = [] then None else Some (acc @ c # sg @ ds, dropWhile is_digit t'))
           else Some (acc, s)))"

definition scan_frac :: "string \<Rightarrow> string \<Rightarrow> (string \<times> string) option" where
  "scan_frac acc s =
     (case s of
        [] \<Rightarrow> Some (acc, [])
      | c # t \<Rightarrow>
          (if c = CHR ''.'' then
             (let ds = takeWhile is_digit t
              in if ds = [] then None else scan_exp (acc @ c # ds) (dropWhile is_digit t))
           else scan_exp acc s))"

definition scan_int :: "string \<Rightarrow> string \<Rightarrow> (string \<times> string) option" where
  "scan_int acc s =
     (case s of
        [] \<Rightarrow> None
      | c # t \<Rightarrow>
          (if c = CHR ''0'' then scan_frac (acc @ [c]) t
           else if is_digit c then
             scan_frac (acc @ c # takeWhile is_digit t) (dropWhile is_digit t)
           else None))"

definition scan_number :: "string \<Rightarrow> (string \<times> string) option" where
  "scan_number s =
     (case s of
        [] \<Rightarrow> None
      | c # t \<Rightarrow> if c = CHR ''-'' then scan_int [c] t else scan_int [] s)"

definition number_token :: "string \<Rightarrow> bool" where
  "number_token s \<longleftrightarrow> scan_number s = Some (s, [])"

subsection \<open>\<^verbatim>\<open>JSON.parse\<close>\<close>

text \<open>
  The white space of JSON is the space, the tab, the line feed and the carriage
  return. A value is an object, an array, a string, one of the three literal names or
  a number. The members of an object are added in the order of the text, a key that
  comes again keeps its place and takes the new value. (The engine lists the keys that
  are array indices first; in the rendering of an object they are in that place
  already.) \<open>parse_elements\<close> reads the
  elements of an array that has some, up to its closing bracket, and \<open>parse_members\<close> the
  members of an object likewise.

  Turning a numeric text into a number is floating-point arithmetic and stays a
  parameter: \<open>lit t\<close> is the literal of the number that the text \<open>t\<close> denotes (\<^verbatim>\<open>1.5\<close> for
  \<^verbatim>\<open>1.50\<close>, and \<^verbatim>\<open>-0\<close> for \<^verbatim>\<open>-0\<close>).

  The first argument after it bounds the number of nested calls. Every call consumes a
  character before the next call at the same depth, so the length of the text is
  enough, and \<open>parse\<close> gives one more.
\<close>

definition is_ws :: "char \<Rightarrow> bool" where
  "is_ws c \<longleftrightarrow> c = CHR 0x20 \<or> c = CHR 0x09 \<or> c = CHR 0x0A \<or> c = CHR 0x0D"

definition skip_ws :: "string \<Rightarrow> string" where
  "skip_ws s = dropWhile is_ws s"

fun parse_value :: "(string \<Rightarrow> string) \<Rightarrow> nat \<Rightarrow> string \<Rightarrow> (jsval \<times> string) option"
  and parse_elements :: "(string \<Rightarrow> string) \<Rightarrow> nat \<Rightarrow> string \<Rightarrow> (jsval list \<times> string) option"
  and parse_members ::
    "(string \<Rightarrow> string) \<Rightarrow> nat \<Rightarrow> string \<Rightarrow> ((string \<times> jsval) list \<times> string) option" where
  "parse_value lit 0 s = None"
| "parse_value lit (Suc n) s =
     (case s of
        [] \<Rightarrow> None
      | c # cs \<Rightarrow>
          (if c = CHR ''{'' then
             (case skip_ws cs of
                [] \<Rightarrow> None
              | x # r \<Rightarrow>
                  (if x = CHR ''}'' then Some (JObj [], r)
                   else (case parse_members lit n (x # r) of
                           None \<Rightarrow> None
                         | Some (ms, r') \<Rightarrow>
                             Some (JObj (foldl (\<lambda>m (k, v). AList.update k v m) [] ms), r'))))
           else if c = CHR ''['' then
             (case skip_ws cs of
                [] \<Rightarrow> None
              | x # r \<Rightarrow>
                  (if x = CHR '']'' then Some (JArr [] [], r)
                   else (case parse_elements lit n (x # r) of
                           None \<Rightarrow> None
                         | Some (vs, r') \<Rightarrow> Some (JArr vs [], r'))))
           else if c = CHR 0x22 then
             (case string_body cs of None \<Rightarrow> None | Some (str, r) \<Rightarrow> Some (JStr str, r))
           else if take 4 s = ''true'' then Some (JBool True, drop 4 s)
           else if take 5 s = ''false'' then Some (JBool False, drop 5 s)
           else if take 4 s = ''null'' then Some (JNull, drop 4 s)
           else (case scan_number s of
                   None \<Rightarrow> None
                 | Some (tok, r) \<Rightarrow> Some (JNum (lit tok), r))))"
| "parse_elements lit 0 s = None"
| "parse_elements lit (Suc n) s =
     (case parse_value lit n s of
        None \<Rightarrow> None
      | Some (v, r) \<Rightarrow>
          (case skip_ws r of
             [] \<Rightarrow> None
           | c # r' \<Rightarrow>
               (if c = CHR '']'' then Some ([v], r')
                else if c = CHR '','' then
                  (case parse_elements lit n (skip_ws r') of
                     None \<Rightarrow> None
                   | Some (vs, r'') \<Rightarrow> Some (v # vs, r''))
                else None)))"
| "parse_members lit 0 s = None"
| "parse_members lit (Suc n) s =
     (case s of
        [] \<Rightarrow> None
      | q # cs \<Rightarrow>
          (if q \<noteq> CHR 0x22 then None
           else (case string_body cs of
                   None \<Rightarrow> None
                 | Some (k, r) \<Rightarrow>
                     (case skip_ws r of
                        [] \<Rightarrow> None
                      | colon # r1 \<Rightarrow>
                          (if colon \<noteq> CHR '':'' then None
                           else (case parse_value lit n (skip_ws r1) of
                                   None \<Rightarrow> None
                                 | Some (v, r2) \<Rightarrow>
                                     (case skip_ws r2 of
                                        [] \<Rightarrow> None
                                      | c # r3 \<Rightarrow>
                                          (if c = CHR ''}'' then Some ([(k, v)], r3)
                                           else if c = CHR '','' then
                                             (case parse_members lit n (skip_ws r3) of
                                                None \<Rightarrow> None
                                              | Some (ms, r4) \<Rightarrow> Some ((k, v) # ms, r4))
                                           else None))))))))"

definition parse :: "(string \<Rightarrow> string) \<Rightarrow> string \<Rightarrow> jsval option" where
  "parse lit text =
     (case parse_value lit (Suc (length text)) (skip_ws text) of
        None \<Rightarrow> None
      | Some (v, r) \<Rightarrow> if skip_ws r = [] then Some v else None)"

subsection \<open>\<^verbatim>\<open>JSON.stringify\<close> with an indentation of two spaces\<close>

text \<open>
  \<^verbatim>\<open>SerializeJSONProperty\<close> with the gap of two spaces; \<open>ind\<close> is the depth. \<^verbatim>\<open>undefined\<close> has no
  text at the top, is \<^verbatim>\<open>null\<close> in an array and is left out of an object (a value that was
  parsed or assigned is never a function, and none has a callable \<^verbatim>\<open>toJSON\<close>). A number
  that is not finite is \<^verbatim>\<open>null\<close>, any other number is rendered by \<^verbatim>\<open>String\<close>, which renders
  negative zero as \<^verbatim>\<open>0\<close>. Of an array only the elements are rendered, not its named
  properties.
\<close>

definition pad :: "nat \<Rightarrow> string" where
  "pad n = replicate (2 * n) (CHR 0x20)"

fun serialize :: "nat \<Rightarrow> jsval \<Rightarrow> string"
  and element_strings :: "nat \<Rightarrow> jsval list \<Rightarrow> string list"
  and member_strings :: "nat \<Rightarrow> (string \<times> jsval) list \<Rightarrow> string list" where
  "serialize ind JUndefined = ''null''"
| "serialize ind JNull = ''null''"
| "serialize ind (JBool b) = (if b then ''true'' else ''false'')"
| "serialize ind (JNum s) =
     (if s = ''NaN'' \<or> s = ''Infinity'' \<or> s = ''-Infinity'' then ''null''
      else if s = ''-0'' then ''0'' else s)"
| "serialize ind (JStr s) = quote s"
| "serialize ind (JArr xs ps) =
     (case element_strings (Suc ind) xs of
        [] \<Rightarrow> ''[]''
      | strs \<Rightarrow>
          ''['' @ [CHR 0x0A] @ pad (Suc ind)
            @ join_with ('','' @ [CHR 0x0A] @ pad (Suc ind)) strs
            @ [CHR 0x0A] @ pad ind @ '']'')"
| "serialize ind (JObj kvs) =
     (case member_strings (Suc ind) kvs of
        [] \<Rightarrow> ''{}''
      | strs \<Rightarrow>
          ''{'' @ [CHR 0x0A] @ pad (Suc ind)
            @ join_with ('','' @ [CHR 0x0A] @ pad (Suc ind)) strs
            @ [CHR 0x0A] @ pad ind @ ''}'')"
| "element_strings ind [] = []"
| "element_strings ind (x # xs) = serialize ind x # element_strings ind xs"
| "member_strings ind [] = []"
| "member_strings ind ((k, v) # kvs) =
     (if v = JUndefined then member_strings ind kvs
      else (quote k @ '': '' @ serialize ind v) # member_strings ind kvs)"

definition stringify :: "jsval \<Rightarrow> string option" where
  "stringify v = (if v = JUndefined then None else Some (serialize 0 v))"

text \<open>
  The world runs the codec of the engine, with \<open>lit\<close> as its conversion of numeric
  texts.
\<close>

definition runtime_codec :: "(string \<Rightarrow> string) \<Rightarrow> world \<Rightarrow> bool" where
  "runtime_codec lit w \<longleftrightarrow> JSON_stringify w = stringify \<and> JSON_parse w = parse lit"

subsection \<open>JSON values\<close>

text \<open>
  A byte list that is the UTF-8 encoding of a text: every character is in its shortest
  form, none is a surrogate and none is beyond \<^verbatim>\<open>U+10FFFF\<close>.
\<close>

definition continuation :: "nat \<Rightarrow> bool" where
  "continuation b \<longleftrightarrow> 128 \<le> b \<and> b \<le> 191"

fun well_formed_utf8 :: "nat list \<Rightarrow> bool" where
  "well_formed_utf8 [] = True"
| "well_formed_utf8 (a # bs) =
     (if a < 128 then well_formed_utf8 bs
      else if 194 \<le> a \<and> a \<le> 223 then
        (case bs of
           b # r \<Rightarrow> continuation b \<and> well_formed_utf8 r
         | _ \<Rightarrow> False)
      else if 224 \<le> a \<and> a \<le> 239 then
        (case bs of
           b # c # r \<Rightarrow>
             (if a = 224 then 160 \<le> b \<and> b \<le> 191
              else if a = 237 then 128 \<le> b \<and> b \<le> 159
              else continuation b)
             \<and> continuation c \<and> well_formed_utf8 r
         | _ \<Rightarrow> False)
      else if 240 \<le> a \<and> a \<le> 244 then
        (case bs of
           b # c # d # r \<Rightarrow>
             (if a = 240 then 144 \<le> b \<and> b \<le> 191
              else if a = 244 then 128 \<le> b \<and> b \<le> 143
              else continuation b)
             \<and> continuation c \<and> continuation d \<and> well_formed_utf8 r
         | _ \<Rightarrow> False)
      else False)"

definition well_formed_text :: "string \<Rightarrow> bool" where
  "well_formed_text s = well_formed_utf8 (map of_char s)"

text \<open>
  The values of the JSON data model, in the form this model keeps them: none is
  \<^verbatim>\<open>undefined\<close>, a string or a key is the encoding of a text, an array has no named property,
  the keys of an object are distinct, and a number is a numeric text of the JSON grammar
  that is the literal of the number it denotes; \<^verbatim>\<open>NaN\<close> and the infinities are no such text.
  Negative zero is such a value: the text \<^verbatim>\<open>-0\<close> is a numeric text and denotes it.
\<close>

fun json_value :: "(string \<Rightarrow> string) \<Rightarrow> jsval \<Rightarrow> bool"
  and json_values :: "(string \<Rightarrow> string) \<Rightarrow> jsval list \<Rightarrow> bool"
  and json_members :: "(string \<Rightarrow> string) \<Rightarrow> (string \<times> jsval) list \<Rightarrow> bool" where
  "json_value lit JUndefined = False"
| "json_value lit JNull = True"
| "json_value lit (JBool b) = True"
| "json_value lit (JNum s) = (number_token s \<and> lit s = s)"
| "json_value lit (JStr s) = well_formed_text s"
| "json_value lit (JArr xs ps) = (ps = [] \<and> json_values lit xs)"
| "json_value lit (JObj kvs) = (distinct (map fst kvs) \<and> json_members lit kvs)"
| "json_values lit [] = True"
| "json_values lit (x # xs) = (json_value lit x \<and> json_values lit xs)"
| "json_members lit [] = True"
| "json_members lit ((k, v) # kvs) =
     (well_formed_text k \<and> json_value lit v \<and> json_members lit kvs)"

fun has_negative_zero :: "jsval \<Rightarrow> bool"
  and have_negative_zero :: "jsval list \<Rightarrow> bool"
  and members_have_negative_zero :: "(string \<times> jsval) list \<Rightarrow> bool" where
  "has_negative_zero (JNum s) = (s = ''-0'')"
| "has_negative_zero (JArr xs ps) = have_negative_zero xs"
| "has_negative_zero (JObj kvs) = members_have_negative_zero kvs"
| "has_negative_zero v = False"
| "have_negative_zero [] = False"
| "have_negative_zero (x # xs) = (has_negative_zero x \<or> have_negative_zero xs)"
| "members_have_negative_zero [] = False"
| "members_have_negative_zero ((k, v) # kvs) =
     (has_negative_zero v \<or> members_have_negative_zero kvs)"

subsection \<open>Notions for the proof of the round trip\<close>

text \<open>
  A numeric text ends where no character follows that could continue it. In a rendered
  text a value is followed by a comma, by a line feed or by nothing, and starts with a
  character that is neither white space nor a closing bracket.
\<close>

definition ends_token :: "string \<Rightarrow> bool" where
  "ends_token r \<longleftrightarrow>
     (case r of [] \<Rightarrow> True
      | c # t \<Rightarrow> \<not> is_digit c \<and> c \<noteq> CHR ''.'' \<and> c \<noteq> CHR ''e'' \<and> c \<noteq> CHR ''E'')"

definition delimited :: "string \<Rightarrow> bool" where
  "delimited r \<longleftrightarrow> (case r of [] \<Rightarrow> True | c # t \<Rightarrow> c = CHR '','' \<or> c = CHR 0x0A)"

definition opens_value :: "char \<Rightarrow> bool" where
  "opens_value c \<longleftrightarrow>
     c = CHR ''['' \<or> c = CHR ''{'' \<or> c = CHR 0x22 \<or> c = CHR ''t'' \<or> c = CHR ''f''
       \<or> c = CHR ''n'' \<or> c = CHR ''-'' \<or> is_digit c"

text \<open>
  The rendering of \<open>X\<close> at any depth, followed by a delimiter, is read back as \<open>X\<close> by a
  parser that is given the length of the rendering as its bound.
\<close>

definition round_trips :: "(string \<Rightarrow> string) \<Rightarrow> jsval \<Rightarrow> bool" where
  "round_trips lit X \<longleftrightarrow>
     (\<forall>ind r n. delimited r \<longrightarrow> length (serialize ind X) \<le> n
        \<longrightarrow> parse_value lit n (serialize ind X @ r) = Some (X, r))"

definition member_string :: "nat \<Rightarrow> string \<times> jsval \<Rightarrow> string" where
  "member_string ind kv = quote (fst kv) @ '': '' @ serialize ind (snd kv)"

section \<open>Example file systems\<close>

text \<open>
  A world from tables: the texts \<^verbatim>\<open>JSON.parse\<close> accepts with their values (every other
  text of the examples is malformed), the values \<^verbatim>\<open>JSON.stringify\<close> renders with their
  texts, the files (a path outside the table does not exist) and the creation times of
  the directories.
\<close>

definition example_world ::
  "(string \<times> jsval) list \<Rightarrow> (jsval \<times> string) list \<Rightarrow> (string \<times> (string + string)) list \<Rightarrow>
   (string \<times> string) list \<Rightarrow> world" where
  "example_world parses renders fs births =
     \<lparr>JSON_parse = map_of parses,
      JSON_stringify = map_of renders,
      base64 = (\<lambda>data. []),
      files = (\<lambda>p. case map_of fs p of Some r \<Rightarrow> r | None \<Rightarrow> Inl ''ENOENT''),
      stats = (\<lambda>p. case map_of births p of
                       Some t \<Rightarrow> Inr (JObj [(''birthtimeMs'', JNum t)])
                     | None \<Rightarrow> Inl ''ENOENT''),
      write_error = (\<lambda>p. None)\<rparr>"

text \<open>
  Three project directories: \<^verbatim>\<open>/a\<close> and \<^verbatim>\<open>/b\<close> declare the same name, the descriptor of
  \<^verbatim>\<open>/c\<close> is cut off in the middle.
\<close>

definition projects_world :: world where
  \<open>projects_world =
     example_world
       [(''{"name":"n","version":"1"}'', JObj [(''name'', JStr ''n''), (''version'', JStr ''1'')]),
        (''{"name":"n","version":"2"}'', JObj [(''name'', JStr ''n''), (''version'', JStr ''2'')])]
       []
       [(''/a/package.json'', Inr ''{"name":"n","version":"1"}''),
        (''/b/package.json'', Inr ''{"name":"n","version":"2"}''),
        (''/c/package.json'', Inr ''{"name":'')]
       [(''/a'', ''1000''), (''/b'', ''2000''), (''/c'', ''3000'')]\<close>

text \<open>The records of \<^verbatim>\<open>/a\<close> and \<^verbatim>\<open>/b\<close>: neither has a manifest pointer or an icon.\<close>

definition project_a :: jsval where
  "project_a =
     JObj [(''name'', JStr ''n''), (''version'', JStr ''1''), (''__skpm_manifest'', JUndefined),
           (''__skpm_icon'', JUndefined), (''__skpm_createdAt'', JNum ''1000'')]"

definition project_b :: jsval where
  "project_b =
     JObj [(''name'', JStr ''n''), (''version'', JStr ''2''), (''__skpm_manifest'', JUndefined),
           (''__skpm_icon'', JUndefined), (''__skpm_createdAt'', JNum ''2000'')]"

text \<open>
  A project that declares \<^verbatim>\<open>foo\<close> and \<^verbatim>\<open>bar\<close>; \<^verbatim>\<open>foo\<close> is installed and \<^verbatim>\<open>bar\<close> is not.
\<close>

definition foo_json :: jsval where
  "foo_json = JObj [(''name'', JStr ''foo''), (''version'', JStr ''1.2.0''),
                    (''license'', JStr ''MIT''), (''main'', JStr ''index.js'')]"

definition installed_json :: jsval where
  "installed_json =
     JObj [(''dependencies'', JObj [(''foo'', JStr ''^1.0.0''), (''bar'', JStr ''^2.0.0'')]),
           (''devDependencies'', JObj [])]"

definition installed_world :: world where
  \<open>installed_world =
     example_world
       [(''{"dependencies":{"foo":"^1.0.0","bar":"^2.0.0"},"devDependencies":{}}'',
         installed_json),
        (''{"name":"foo","version":"1.2.0","license":"MIT","main":"index.js"}'', foo_json)]
       []
       [(''/a/package.json'',
         Inr ''{"dependencies":{"foo":"^1.0.0","bar":"^2.0.0"},"devDependencies":{}}''),
        (''/a/node_modules/foo/package.json'',
         Inr ''{"name":"foo","version":"1.2.0","license":"MIT","main":"index.js"}'')]
       [(''/a'', ''1000'')]\<close>



text \<open>
  A project that declares \<^verbatim>\<open>foo\<close> in both sections without having it installed, and in
  which \<^verbatim>\<open>zzz\<close>, a production dependency, is an alias of the package \<^verbatim>\<open>foo\<close>.
\<close>

definition shadow_json :: jsval where
  "shadow_json =
     JObj [(''dependencies'', JObj [(''foo'', JStr ''^1.0.0''), (''zzz'', JStr ''npm:foo@1.0.0'')]),
           (''devDependencies'', JObj [(''foo'', JStr ''^1.0.0'')])]"

definition shadow_world :: world where
  \<open>shadow_world =
     example_world
       [(''{"dependencies":{"foo":"^1.0.0","zzz":"npm:foo@1.0.0"},"devDependencies":{"foo":"^1.0.0"}}'',
         shadow_json),
        (''{"name":"foo","version":"1.0.0"}'',
         JObj [(''name'', JStr ''foo''), (''version'', JStr ''1.0.0'')])]
       []
       [(''/c/package.json'',
         Inr ''{"dependencies":{"foo":"^1.0.0","zzz":"npm:foo@1.0.0"},"devDependencies":{"foo":"^1.0.0"}}''),
        (''/c/node_modules/zzz/package.json'', Inr ''{"name":"foo","version":"1.0.0"}'')]
       [(''/c'', ''3000'')]\<close>


definition shadow_record :: jsval where
  "shadow_record =
     JObj [(''name'', JStr ''foo''), (''version'', JStr ''1.0.0''), (''status'', JStr ''idle''),
           (''location'', JStr ''dependencies'')]"

text \<open>A project that declares \<^verbatim>\<open>foo\<close> in both sections and has it installed.\<close>

definition both_json :: jsval where
  "both_json =
     JObj [(''dependencies'', JObj [(''foo'', JStr ''^1.0.0'')]),
           (''devDependencies'', JObj [(''foo'', JStr ''^1.0.0'')])]"

definition both_world :: world where
  \<open>both_world =
     example_world
       [(''{"dependencies":{"foo":"^1.0.0"},"devDependencies":{"foo":"^1.0.0"}}'', both_json),
        (''{"name":"foo","version":"1.2.0","license":"MIT","main":"index.js"}'', foo_json)]
       []
       [(''/d/package.json'',
         Inr ''{"dependencies":{"foo":"^1.0.0"},"devDependencies":{"foo":"^1.0.0"}}''),
        (''/d/node_modules/foo/package.json'',
         Inr ''{"name":"foo","version":"1.2.0","license":"MIT","main":"index.js"}'')]
       [(''/d'', ''4000'')]\<close>

text \<open>A project whose installed descriptor of \<^verbatim>\<open>baz\<close> cannot be read.\<close>

definition unreadable_json :: jsval where
  "unreadable_json = JObj [(''dependencies'', JObj [(''baz'', JStr ''^1.0.0'')])]"

definition unreadable_world :: world where
  \<open>unreadable_world =
     example_world
       [(''{"dependencies":{"baz":"^1.0.0"}}'', unreadable_json)]
       []
       [(''/e/package.json'', Inr ''{"dependencies":{"baz":"^1.0.0"}}''),
        (''/e/node_modules/baz/package.json'', Inl ''EACCES'')]
       [(''/e'', ''5000'')]\<close>

text \<open>The record the metadata reader builds from the installed descriptor of \<^verbatim>\<open>foo\<close>.\<close>

definition foo_record :: "DependencyLocation \<Rightarrow> jsval" where
  "foo_record l =
     JObj [(''name'', JStr ''foo''), (''version'', JStr ''1.2.0''), (''license'', JStr ''MIT''),
           (''status'', JStr ''idle''), (''location'', JStr (location_name l))]"

text \<open>A plugin project with a manifest and no icon.\<close>

definition plugin_json :: jsval where
  "plugin_json =
     JObj [(''name'', JStr ''p''), (''skpm'', JObj [(''manifest'', JStr ''src/manifest.json'')])]"

definition plugin_world :: world where
  \<open>plugin_world =
     example_world
       [(''{"name":"p","skpm":{"manifest":"src/manifest.json"}}'', plugin_json),
        (''{"commands":[]}'', JObj [(''commands'', JArr [] [])])]
       []
       [(''/p/package.json'', Inr ''{"name":"p","skpm":{"manifest":"src/manifest.json"}}''),
        (''/p/src/manifest.json'', Inr ''{"commands":[]}'')]
       [(''/p'', ''6000'')]\<close>

definition plugin_project :: jsval where
  "plugin_project =
     JObj [(''name'', JStr ''p''), (''skpm'', JObj [(''manifest'', JStr ''src/manifest.json'')]),
           (''__skpm_manifest'', JObj [(''commands'', JArr [] [])]),
           (''__skpm_icon'', JUndefined),
           (''__skpm_createdAt'', JNum ''6000'')]"





text \<open>
  A project in which \<^verbatim>\<open>foo\<close> is installed and the installed descriptor of \<^verbatim>\<open>bad\<close> is cut off
  in the middle.
\<close>

definition broken_world :: world where
  \<open>broken_world =
     example_world
       [(''{"dependencies":{"foo":"^1.0.0","bad":"^1.0.0"}}'',
         JObj [(''dependencies'', JObj [(''foo'', JStr ''^1.0.0''), (''bad'', JStr ''^1.0.0'')])]),
        (''{"name":"foo","version":"1.2.0","license":"MIT","main":"index.js"}'', foo_json)]
       []
       [(''/f/package.json'', Inr ''{"dependencies":{"foo":"^1.0.0","bad":"^1.0.0"}}''),
        (''/f/node_modules/foo/package.json'',
         Inr ''{"name":"foo","version":"1.2.0","license":"MIT","main":"index.js"}''),
        (''/f/node_modules/bad/package.json'', Inr ''{"name":'')]
       [(''/f'', ''8000'')]\<close>

text \<open>
  An empty disk that takes every write, under the codec of the engine. The numeric
  texts of the two descriptors are literals of the numbers they denote, on which the
  conversion is the identity.
\<close>

definition writer_world :: world where
  "writer_world =
     \<lparr>JSON_parse = parse (\<lambda>t. t),
      JSON_stringify = stringify,
      base64 = (\<lambda>data. []),
      files = (\<lambda>p. Inl ''ENOENT''),
      stats = (\<lambda>p. Inl ''ENOENT''),
      write_error = (\<lambda>p. None)\<rparr>"

definition written_json :: jsval where
  \<open>written_json =
     JObj [(''name'', JStr (''a "b" c'' @ [CHR 0x5C, CHR 0x0A, CHR 0x01, CHR 0xC3, CHR 0xA9])),
           (''version'', JStr ''1.0.0''),
           (''private'', JBool True),
           (''keywords'', JArr [JStr ''sketch'', JNum ''42'', JNum ''-1.5e-7'', JNull, JArr [] []] []),
           (''skpm'', JObj [(''manifest'', JStr ''src/manifest.json''), (''assets'', JObj [])])]\<close>

definition negative_zero_json :: jsval where
  "negative_zero_json = JObj [(''name'', JStr ''n''), (''offset'', JNum ''-0'')]"

section \<open>Properties of the \<^verbatim>\<open>async/map\<close> combinator\<close>

lemma length_array_set_ge: "length xs \<le> length (array_set xs i v)"
  by (simp add: array_set_def)

lemma length_array_set_gt: "i < length (array_set xs i v)"
  by (simp add: array_set_def)

lemma length_array_set_le: "length xs \<le> n \<Longrightarrow> i < n \<Longrightarrow> length (array_set xs i v) \<le> n"
  by (simp add: array_set_def)

lemma nth_array_set_same: "array_set xs i v ! i = v"
  by (simp add: array_set_def nth_append)

lemma nth_array_set_other: "j \<noteq> i \<Longrightarrow> j < length xs \<Longrightarrow> array_set xs i v ! j = xs ! j"
  by (simp add: array_set_def nth_append)

lemma asyncMap_run_fulfilled:
  assumes "distinct sched" and "set sched \<subseteq> {..<length vs}"
    and "completed + length sched = length vs" and "sched \<noteq> []"
    and "length results \<le> length vs"
    and "\<forall>j<length vs. j \<notin> set sched \<longrightarrow> j < length results \<and> results ! j = vs ! j"
  shows "asyncMap_run (map Fulfilled vs) sched results completed = Some (None, vs)"
  using assms
proof (induction sched arbitrary: results completed)
  case Nil
  then show ?case by simp
next
  case (Cons i sched)
  let ?r = "array_set results i (vs ! i)"
  from Cons.prems(2) have i: "i < length vs" by simp
  have len: "length ?r \<le> length vs"
    using Cons.prems(5) i by (rule length_array_set_le)
  have filled: "j < length ?r \<and> ?r ! j = vs ! j" if j: "j < length vs" "j \<notin> set sched" for j
  proof (cases "j = i")
    case True
    then show ?thesis by (simp add: length_array_set_gt nth_array_set_same)
  next
    case False
    with j have "j \<notin> set (i # sched)" by simp
    with j(1) Cons.prems(6) have old: "j < length results \<and> results ! j = vs ! j" by blast
    from old length_array_set_ge[of results i "vs ! i"] have "j < length ?r" by linarith
    moreover from False old have "?r ! j = vs ! j" by (simp add: nth_array_set_other)
    ultimately show ?thesis by simp
  qed
  have cb: "map Fulfilled vs ! i = Fulfilled (vs ! i)" using i by simp
  show ?case
  proof (cases "sched = []")
    case True
    with Cons.prems(3) have last: "Suc completed = length vs" by simp
    have "length vs \<le> length ?r"
    proof (cases "length vs")
      case 0 then show ?thesis by simp
    next
      case (Suc m)
      with True filled[of m] have "m < length ?r" by simp
      with Suc show ?thesis by simp
    qed
    with len have "length ?r = length vs" by simp
    moreover have "\<And>j. j < length ?r \<Longrightarrow> ?r ! j = vs ! j"
      using True filled \<open>length ?r = length vs\<close> by simp
    ultimately have "?r = vs" by (rule nth_equalityI)
    with last i cb show ?thesis by simp
  next
    case False
    then obtain a t where "sched = a # t" by (cases sched) auto
    with Cons.prems(3) have notlast: "Suc completed \<noteq> length vs" by simp
    have "asyncMap_run (map Fulfilled vs) sched ?r (Suc completed) = Some (None, vs)"
    proof (rule Cons.IH)
      show "distinct sched" using Cons.prems(1) by simp
      show "set sched \<subseteq> {..<length vs}" using Cons.prems(2) by simp
      show "Suc completed + length sched = length vs" using Cons.prems(3) by simp
      show "sched \<noteq> []" by (rule False)
      show "length ?r \<le> length vs" by (rule len)
      show "\<forall>j<length vs. j \<notin> set sched \<longrightarrow> j < length ?r \<and> ?r ! j = vs ! j"
        using filled by blast
    qed
    with notlast i cb show ?thesis by simp
  qed
qed

lemma schedule_iff: "schedule n sched \<longleftrightarrow> distinct sched \<and> set sched = {..<n}"
  by (simp add: schedule_def atLeast_upt)

lemma schedule_length: "schedule n sched \<Longrightarrow> length sched = n"
proof -
  assume "schedule n sched"
  then have d: "distinct sched" and s: "set sched = {..<n}"
    by (simp_all add: schedule_iff)
  from d have "card (set sched) = length sched" by (rule distinct_card)
  with s show ?thesis by simp
qed

lemma asyncMap_fulfilled:
  assumes "schedule (length vs) sched"
  shows "asyncMap (map Fulfilled vs) sched = Some (None, vs)"
proof (cases "vs = []")
  case True
  then show ?thesis by (simp add: asyncMap_def)
next
  case False
  from assms have d: "distinct sched" and s: "set sched = {..<length vs}"
    by (simp_all add: schedule_iff)
  have len: "length sched = length vs" by (rule schedule_length[OF assms])
  have "asyncMap_run (map Fulfilled vs) sched [] 0 = Some (None, vs)"
  proof (rule asyncMap_run_fulfilled)
    show "distinct sched" by (rule d)
    show "set sched \<subseteq> {..<length vs}" using s by simp
    show "0 + length sched = length vs" using len by simp
    show "sched \<noteq> []" using False len by (cases sched) simp_all
    show "length ([]::jsval list) \<le> length vs" by simp
    show "\<forall>j<length vs. j \<notin> set sched \<longrightarrow> j < length ([]::jsval list) \<and> [] ! j = vs ! j"
      unfolding s by simp
  qed
  with False show ?thesis by (simp add: asyncMap_def)
qed

lemma asyncMap_run_rejected:
  assumes "\<exists>i\<in>set sched. i < length cbs \<and> (\<exists>e. cbs ! i = Rejected e)"
    and "completed + length sched \<le> length cbs"
  shows "\<exists>i e r. i < length cbs \<and> cbs ! i = Rejected e \<and>
           asyncMap_run cbs sched results completed = Some (Some e, r)"
  using assms
proof (induction sched arbitrary: results completed)
  case Nil
  then show ?case by simp
next
  case (Cons i sched)
  from Cons.prems(2) have le: "completed + length sched \<le> length cbs" by simp
  show ?case
  proof (cases "i < length cbs")
    case False
    with Cons.prems(1) have "\<exists>i\<in>set sched. i < length cbs \<and> (\<exists>e. cbs ! i = Rejected e)" by auto
    from Cons.IH[OF this le, of results] False show ?thesis by simp
  next
    case True
    show ?thesis
    proof (cases "cbs ! i")
      case (Rejected e)
      with True show ?thesis by auto
    next
      case Pending
      with Cons.prems(1) have "\<exists>i\<in>set sched. i < length cbs \<and> (\<exists>e. cbs ! i = Rejected e)" by auto
      from Cons.IH[OF this le, of results] True Pending show ?thesis by simp
    next
      case (Fulfilled v)
      with Cons.prems(1) have ex: "\<exists>i\<in>set sched. i < length cbs \<and> (\<exists>e. cbs ! i = Rejected e)" by auto
      then obtain a t where "sched = a # t" by (cases sched) auto
      with Cons.prems(2) have notlast: "Suc completed \<noteq> length cbs"
        and le': "Suc completed + length sched \<le> length cbs" by simp_all
      from Cons.IH[OF ex le', of "array_set results i v"] True Fulfilled notlast
      show ?thesis by simp
    qed
  qed
qed

lemma asyncMap_rejected:
  assumes "schedule (length cbs) sched" and "i < length cbs" and "cbs ! i = Rejected e"
  shows "\<exists>j e' r. j < length cbs \<and> cbs ! j = Rejected e' \<and> asyncMap cbs sched = Some (Some e', r)"
proof -
  from assms(1) have s: "set sched = {..<length cbs}"
    by (simp add: schedule_iff)
  with assms(2,3) have ex: "\<exists>i\<in>set sched. i < length cbs \<and> (\<exists>e. cbs ! i = Rejected e)" by auto
  have "0 + length sched \<le> length cbs" using schedule_length[OF assms(1)] by simp
  from asyncMap_run_rejected[OF ex this, of "[]"] assms(2) show ?thesis
    by (auto simp: asyncMap_def)
qed

lemma asyncMap_run_error_source:
  "asyncMap_run cbs sched results completed = Some (Some e, r) \<Longrightarrow>
   \<exists>i<length cbs. cbs ! i = Rejected e"
proof (induction sched arbitrary: results completed)
  case Nil
  then show ?case by simp
next
  case (Cons i sched)
  then show ?case
    by (cases "i < length cbs"; cases "cbs ! i") (auto split: if_splits)
qed

lemma asyncMap_error_source:
  "asyncMap cbs sched = Some (Some e, r) \<Longrightarrow> \<exists>i<length cbs. cbs ! i = Rejected e"
  by (cases "cbs = []") (auto simp: asyncMap_def dest: asyncMap_run_error_source)

lemma asyncMap_run_success_count:
  "asyncMap_run cbs sched results completed = Some (None, r) \<Longrightarrow>
   length cbs \<le> completed + length (filter (is_fulfilled cbs) sched)"
proof (induction sched arbitrary: results completed)
  case Nil
  then show ?case by simp
next
  case (Cons i sched)
  show ?case
  proof (cases "i < length cbs")
    case False
    with Cons.prems have "asyncMap_run cbs sched results completed = Some (None, r)" by simp
    from Cons.IH[OF this] show ?thesis by simp
  next
    case True
    show ?thesis
    proof (cases "cbs ! i")
      case (Rejected e)
      with True Cons.prems show ?thesis by simp
    next
      case Pending
      with True Cons.prems have "asyncMap_run cbs sched results completed = Some (None, r)" by simp
      from Cons.IH[OF this] show ?thesis by simp
    next
      case (Fulfilled v)
      then have f: "is_fulfilled cbs i" using True by (simp add: is_fulfilled_def)
      show ?thesis
      proof (cases "Suc completed = length cbs")
        case True
        with f show ?thesis by simp
      next
        case False
        with True Fulfilled Cons.prems
        have "asyncMap_run cbs sched (array_set results i v) (Suc completed) = Some (None, r)" by simp
        from Cons.IH[OF this] f show ?thesis by simp
      qed
    qed
  qed
qed

lemma asyncMap_success_fulfilled:
  assumes "schedule (length cbs) sched" and "asyncMap cbs sched = Some (None, r)" and "i < length cbs"
  shows "\<exists>v. cbs ! i = Fulfilled v"
proof (rule ccontr)
  assume not: "\<not> (\<exists>v. cbs ! i = Fulfilled v)"
  from assms(3) have ne: "cbs \<noteq> []" by auto
  with assms(2) have "asyncMap_run cbs sched [] 0 = Some (None, r)" by (simp add: asyncMap_def)
  from asyncMap_run_success_count[OF this]
  have le: "length cbs \<le> length (filter (is_fulfilled cbs) sched)" by simp
  from assms(1,3) have "i \<in> set sched" by (simp add: schedule_iff)
  moreover from not have "\<not> is_fulfilled cbs i"
    by (simp add: is_fulfilled_def split: promise.splits)
  ultimately have "length (filter (is_fulfilled cbs) sched) < length sched"
    by (rule length_filter_less)
  with le schedule_length[OF assms(1)] show False by simp
qed

lemma asyncMap_success_values:
  assumes "schedule (length cbs) sched" and "asyncMap cbs sched = Some (None, r)"
  shows "cbs = map Fulfilled r"
proof -
  define vs where "vs = map (\<lambda>c. case c of Fulfilled v \<Rightarrow> v | _ \<Rightarrow> JNull) cbs"
  have "cbs = map Fulfilled vs"
  proof (rule nth_equalityI)
    show "length cbs = length (map Fulfilled vs)" by (simp add: vs_def)
    fix i assume "i < length cbs"
    with asyncMap_success_fulfilled[OF assms] obtain v where "cbs ! i = Fulfilled v" by blast
    with \<open>i < length cbs\<close> show "cbs ! i = map Fulfilled vs ! i" by (simp add: vs_def)
  qed
  moreover have "length vs = length cbs" by (simp add: vs_def)
  ultimately have "asyncMap cbs sched = Some (None, vs)"
    using asyncMap_fulfilled[of vs sched] assms(1) by simp
  with assms(2) \<open>cbs = map Fulfilled vs\<close> show ?thesis by simp
qed

section \<open>Properties of the fold by name\<close>

lemma find_append_None: "find P xs = None \<Longrightarrow> find P (xs @ ys) = find P ys"
  by (induction xs) (auto split: if_splits)

lemma find_append_Some: "find P xs = Some x \<Longrightarrow> find P (xs @ ys) = Some x"
  by (induction xs) (auto split: if_splits)

lemma find_Some_in: "find P xs = Some x \<Longrightarrow> x \<in> set xs \<and> P x"
  by (induction xs) (auto split: if_splits)

lemma find_exists: "x \<in> set xs \<Longrightarrow> P x \<Longrightarrow> \<exists>y. find P xs = Some y"
  by (cases "find P xs") (auto simp: find_None_iff)

lemma find_filter: "find P (filter Q xs) = find (\<lambda>x. Q x \<and> P x) xs"
  by (induction xs) auto

lemma map_of_by_name_from:
  "by_name_from m0 xs = Inr m \<Longrightarrow>
   map_of m k =
     (case find (\<lambda>x. name_key x = Inr k) (rev xs) of Some x \<Rightarrow> Some x | None \<Rightarrow> map_of m0 k)"
proof (induction xs arbitrary: m0)
  case Nil
  then show ?case by simp
next
  case (Cons x xs)
  from Cons.prems obtain k0 where k0: "name_key x = Inr k0"
    and rest: "by_name_from (AList.update k0 x m0) xs = Inr m"
    by (auto split: sum.splits)
  let ?P = "\<lambda>x. name_key x = Inr k"
  show ?case
  proof (cases "find ?P (rev xs)")
    case (Some y)
    with Cons.IH[OF rest] find_append_Some[OF Some, of "[x]"] show ?thesis by simp
  next
    case None
    with Cons.IH[OF rest] find_append_None[OF None, of "[x]"] k0 show ?thesis
      by (auto simp: update_conv')
  qed
qed

lemma map_of_by_name:
  "by_name xs = Inr m \<Longrightarrow> map_of m k = find (\<lambda>x. name_key x = Inr k) (rev xs)"
  by (simp add: by_name_def map_of_by_name_from split: option.splits)

lemma keys_by_name_from:
  "by_name_from m0 xs = Inr m \<Longrightarrow>
   fst ` set m = fst ` set m0 \<union> {k. \<exists>x\<in>set xs. name_key x = Inr k}"
proof (induction xs arbitrary: m0)
  case Nil
  then show ?case by simp
next
  case (Cons x xs)
  from Cons.prems obtain k0 where k0: "name_key x = Inr k0"
    and rest: "by_name_from (AList.update k0 x m0) xs = Inr m"
    by (auto split: sum.splits)
  from Cons.IH[OF rest] k0 show ?case by (auto simp: dom_update)
qed

lemma keys_by_name:
  "by_name xs = Inr m \<Longrightarrow> fst ` set m = {k. \<exists>x\<in>set xs. name_key x = Inr k}"
  by (simp add: by_name_def keys_by_name_from)

lemma by_name_from_names:
  "by_name_from m0 xs = Inr m \<Longrightarrow> x \<in> set xs \<Longrightarrow> \<exists>k. name_key x = Inr k"
  by (induction xs arbitrary: m0) (auto split: sum.splits)

lemma by_name_names: "by_name xs = Inr m \<Longrightarrow> x \<in> set xs \<Longrightarrow> \<exists>k. name_key x = Inr k"
  unfolding by_name_def by (rule by_name_from_names)

lemma by_name_from_total:
  "\<forall>x\<in>set xs. \<exists>k. name_key x = Inr k \<Longrightarrow> \<exists>m. by_name_from m0 xs = Inr m"
  by (induction xs arbitrary: m0) auto

lemma by_name_total: "\<forall>x\<in>set xs. \<exists>k. name_key x = Inr k \<Longrightarrow> \<exists>m. by_name xs = Inr m"
  unfolding by_name_def by (rule by_name_from_total)

lemma find_rev_last:
  assumes "j < length xs" and "P (xs ! j)" and "\<forall>l. j < l \<and> l < length xs \<longrightarrow> \<not> P (xs ! l)"
  shows "find P (rev xs) = Some (xs ! j)"
proof -
  have xs: "xs = take j xs @ xs ! j # drop (Suc j) xs"
    using assms(1) by (simp add: id_take_nth_drop)
  have "\<forall>x\<in>set (drop (Suc j) xs). \<not> P x"
  proof
    fix x assume "x \<in> set (drop (Suc j) xs)"
    then obtain l where "l < length (drop (Suc j) xs)" "x = drop (Suc j) xs ! l"
      by (auto simp: in_set_conv_nth)
    then have "x = xs ! (Suc j + l)" "Suc j + l < length xs" by auto
    with assms(3) show "\<not> P x" by simp
  qed
  then have "find P (rev (drop (Suc j) xs)) = None" by (simp add: find_None_iff)
  then have "find P (rev (drop (Suc j) xs) @ xs ! j # rev (take j xs)) = Some (xs ! j)"
    using assms(2) by (simp add: find_append_None)
  moreover have "rev xs = rev (drop (Suc j) xs) @ xs ! j # rev (take j xs)"
    by (subst xs) simp
  ultimately show ?thesis by simp
qed

section \<open>Properties of objects and of \<open>pick\<close>\<close>

lemma lookup_update: "lookup (AList.update k v al) k' = (if k' = k then v else lookup al k')"
  by (simp add: lookup_def update_conv')

lemma lookup_absent: "k \<notin> fst ` set al \<Longrightarrow> lookup al k = JUndefined"
proof -
  assume "k \<notin> fst ` set al"
  then have "map_of al k = None" by (simp add: map_of_eq_None_iff)
  then show ?thesis by (simp add: lookup_def)
qed

lemma find_index_None: "k \<notin> set (map show_nat [0..<n]) \<Longrightarrow> find (\<lambda>i. show_nat i = k) [0..<n] = None"
  by (auto simp: find_None_iff)

lemma read_prop_absent: "\<not> has_prop v k \<Longrightarrow> read_prop v k = JUndefined"
  by (cases v) (auto simp: read_prop_def find_index_None lookup_absent simp del: upt_Suc)


lemma lookup_pick:
  "lookup (pick obj ks) k = (if k \<in> set ks \<and> has_prop obj k then read_prop obj k else JUndefined)"
proof (cases "k \<in> set ks \<and> has_prop obj k")
  case True
  then have "map_of (pick obj ks) k = Some (read_prop obj k)"
    unfolding pick_def by (induction ks) auto
  with True show ?thesis by (simp add: lookup_def)
next
  case False
  then have "k \<notin> fst ` set (pick obj ks)" by (auto simp: pick_def)
  then have "lookup (pick obj ks) k = JUndefined" by (rule lookup_absent)
  moreover from False
  have "(if k \<in> set ks \<and> has_prop obj k then read_prop obj k else JUndefined) = JUndefined"
    by (rule if_not_P)
  ultimately show ?thesis by simp
qed

lemma lookup_pick_read: "k \<in> set ks \<Longrightarrow> lookup (pick obj ks) k = read_prop obj k"
  by (simp add: lookup_pick read_prop_absent)


lemma keys_update: "set (map fst (AList.update k v al)) = insert k (set (map fst al))"
  using dom_update[of k v al] by simp

lemma set_prop_cases:
  assumes "set_prop v k x = Inr v'"
  obtains (obj) kvs where "v = JObj kvs" and "v' = JObj (AList.update k x kvs)"
        | (arr) xs ps where "v = JArr xs ps" and "v' = JArr xs (AList.update k x ps)"
  using assms by (cases v) auto

lemma set_prop_frame:
  assumes "set_prop v k x = Inr v'" and "k' \<noteq> k"
  shows "get_prop v' k' = get_prop v k'" and "has_prop v' k' = has_prop v k'"
proof -
  from assms(1) show "get_prop v' k' = get_prop v k'"
  proof (cases rule: set_prop_cases)
    case (obj kvs)
    with assms(2) show ?thesis by (simp add: lookup_update)
  next
    case (arr xs ps)
    with assms(2) show ?thesis
      by (simp add: lookup_update del: upt_Suc split: option.splits)
  qed
  from assms(1) show "has_prop v' k' = has_prop v k'"
  proof (cases rule: set_prop_cases)
    case (obj kvs)
    with assms(2) keys_update[of k x kvs] show ?thesis by (simp del: set_map)
  next
    case (arr xs ps)
    with assms(2) keys_update[of k x ps] show ?thesis by (simp del: set_map upt_Suc)
  qed
qed

lemma set_prop_has:
  assumes "set_prop v k x = Inr v'"
  shows "has_prop v' k"
  using assms
proof (cases rule: set_prop_cases)
  case (obj kvs)
  with keys_update[of k x kvs] show ?thesis by (simp del: set_map)
next
  case (arr xs ps)
  with keys_update[of k x ps] show ?thesis by (simp del: set_map upt_Suc)
qed

lemma merge_project_frame:
  assumes "merge_project json manifest icon stat = Inr project"
  shows "k \<notin> set reserved_keys \<Longrightarrow> get_prop project k = get_prop json k"
    and "k \<notin> set reserved_keys \<Longrightarrow> has_prop project k = has_prop json k"
    and "k \<in> set reserved_keys \<Longrightarrow> has_prop project k"
proof -
  from assms obtain json1 json2 createdAt where
    s1: "set_prop json ''__skpm_manifest'' manifest = Inr json1" and
    s2: "set_prop json1 ''__skpm_icon'' icon = Inr json2" and
    s3: "set_prop json2 ''__skpm_createdAt'' createdAt = Inr project"
    by (auto simp: merge_project_def split: sum.splits)
  show "get_prop project k = get_prop json k" if "k \<notin> set reserved_keys"
    using that set_prop_frame(1)[OF s1, of k] set_prop_frame(1)[OF s2, of k]
      set_prop_frame(1)[OF s3, of k]
    by (simp add: reserved_keys_def)
  show "has_prop project k = has_prop json k" if "k \<notin> set reserved_keys"
    using that set_prop_frame(2)[OF s1, of k] set_prop_frame(2)[OF s2, of k]
      set_prop_frame(2)[OF s3, of k]
    by (simp add: reserved_keys_def)
  show "has_prop project k" if "k \<in> set reserved_keys"
  proof -
    have h1: "has_prop json1 ''__skpm_manifest''" by (rule set_prop_has[OF s1])
    have h2: "has_prop json2 ''__skpm_icon''" by (rule set_prop_has[OF s2])
    have h3: "has_prop project ''__skpm_createdAt''" by (rule set_prop_has[OF s3])
    from h1 set_prop_frame(2)[OF s2, of "''__skpm_manifest''"]
    have "has_prop json2 ''__skpm_manifest''" by simp
    with set_prop_frame(2)[OF s3, of "''__skpm_manifest''"]
    have m: "has_prop project ''__skpm_manifest''" by simp
    from h2 set_prop_frame(2)[OF s3, of "''__skpm_icon''"]
    have i: "has_prop project ''__skpm_icon''" by simp
    from that m i h3 show ?thesis by (auto simp: reserved_keys_def)
  qed
qed

lemma loadProject_merge:
  assumes "loadPackageJson w p = Fulfilled json" and "loadProject w p = Fulfilled project"
  shows "\<exists>manifest icon stat. merge_project json manifest icon stat = Inr project"
  using assms
  by (auto simp: loadProject_def split: option.splits sum.splits)

lemma loadProjectDependency_value:
  "loadProjectDependency w p d l = Fulfilled v \<Longrightarrow> v = JNull \<or> (\<exists>fields. v = JObj fields)"
  by (auto simp: loadProjectDependency_def split: sum.splits option.splits if_splits)

lemma loadProjectDependency_truthy:
  "loadProjectDependency w p d l = Fulfilled v \<Longrightarrow> truthy v \<longleftrightarrow> v \<noteq> JNull"
  by (auto dest: loadProjectDependency_value)

lemma filter_truthy_items:
  assumes "dependency_items w p q = map Fulfilled vs"
  shows "filter truthy vs = filter (\<lambda>v. v \<noteq> JNull) vs"
proof (rule filter_cong[OF refl])
  fix v assume "v \<in> set vs"
  then have "Fulfilled v \<in> set (dependency_items w p q)" using assms by simp
  then have "Fulfilled v \<in> (\<lambda>d. loadProjectDependency w p (name d) (location d)) ` set q"
    by (simp add: dependency_items_def)
  then obtain d :: QueuedDependency
    where "Fulfilled v = loadProjectDependency w p (name d) (location d)"
    by (rule imageE)
  then have "loadProjectDependency w p (name d) (location d) = Fulfilled v" by simp
  then show "truthy v = (v \<noteq> JNull)" by (rule loadProjectDependency_truthy)
qed

lemma loadProjectDependencies_items:
  "loadProjectDependencies w sched p q =
     (case asyncMap (dependency_items w p q) sched of
        None \<Rightarrow> Pending
      | Some (Some err, results) \<Rightarrow> Rejected err
      | Some (None, results) \<Rightarrow> Fulfilled (filter truthy results))"
  by (simp add: loadProjectDependencies_def dependency_items_def)

section \<open>Properties of the project loader\<close>

lemma merge_project_truthy:
  assumes "merge_project json manifest icon stat = Inr project"
  shows "truthy project"
proof -
  from assms obtain json2 createdAt where
    "set_prop json2 ''__skpm_createdAt'' createdAt = Inr project"
    by (auto simp: merge_project_def split: sum.splits)
  then show ?thesis by (cases rule: set_prop_cases) simp_all
qed

lemma loadProject_truthy: "loadProject w p = Fulfilled r \<Longrightarrow> truthy r"
  by (auto simp: loadProject_def split: promise.splits option.splits sum.splits
      dest: merge_project_truthy)

lemma loadProjects_iteratee_not_rejected: "loadProjects_iteratee w p \<noteq> Rejected e"
  by (simp add: loadProjects_iteratee_def split: promise.splits)

lemma loadProjects_iteratee_fulfilled:
  assumes "loadProjects_iteratee w p = Fulfilled v"
  shows "loadProject w p = Fulfilled v \<or> v = JNull \<and> (\<exists>e. loadProject w p = Rejected e)"
  using assms by (auto simp: loadProjects_iteratee_def split: promise.splits)

lemma loadProjects_results:
  assumes "schedule (length paths) sched" and "loadProjects w sched paths = Fulfilled m"
  shows "\<exists>results. map (loadProjects_iteratee w) paths = map Fulfilled results
            \<and> by_name (filter truthy results) = Inr m"
proof -
  let ?cbs = "map (loadProjects_iteratee w) paths"
  from assms(2) obtain err results where a: "asyncMap ?cbs sched = Some (err, results)"
    and m: "by_name (filter truthy results) = Inr m"
    by (auto simp: loadProjects_def split: option.splits sum.splits)
  have "err = None"
  proof (cases err)
    case None
    then show ?thesis .
  next
    case (Some e)
    with a asyncMap_error_source[of ?cbs sched e results]
    obtain i where "i < length ?cbs" "?cbs ! i = Rejected e" by blast
    then show ?thesis by (simp add: loadProjects_iteratee_not_rejected)
  qed
  with a have "asyncMap ?cbs sched = Some (None, results)" by simp
  moreover from assms(1) have "schedule (length ?cbs) sched" by simp
  ultimately have "?cbs = map Fulfilled results" by (rule asyncMap_success_values[rotated])
  with m show ?thesis by blast
qed

section \<open>Project set aggregator: which projects are in the mapping\<close>

text \<open>
  A project whose descriptor cannot be read is rejected, whatever the error; a project
  whose descriptor parses to an object is loaded under its name, whether or not its
  manifest, icon and creation time can be read, as long as the manifest, if it is
  there, parses. When every project settles, the keys of the mapping are the names of
  the projects that load.
\<close>

lemma loadProject_rejected_descriptor:
  "loadPackageJson w p = Rejected e \<Longrightarrow> loadProject w p = Rejected e"
  by (simp add: loadProject_def)

lemma get_prop_truthy: "truthy v \<Longrightarrow> \<exists>x. get_prop v k = Inr x"
  by (cases v) (auto split: option.splits)

lemma merge_project_obj:
  "\<exists>r. merge_project (JObj kvs) manifest icon stat = Inr r"
proof -
  have "truthy (if truthy stat then stat else JObj [])" by simp
  from get_prop_truthy[OF this, of "''birthtimeMs''"] show ?thesis
    by (auto simp: merge_project_def)
qed

lemma name_key_merge_project:
  assumes "merge_project json manifest icon stat = Inr r"
  shows "name_key r = name_key json"
proof -
  have "''name'' \<notin> set reserved_keys" by (simp add: reserved_keys_def)
  from merge_project_frame(1)[OF assms this] show ?thesis
    by (simp add: name_key_def read_prop_def)
qed

lemma loadProject_object:
  assumes "loadPackageJson w p = Fulfilled (JObj kvs)"
    and "loadManifestJson w p (JObj kvs) \<noteq> Pending"
  shows "\<exists>r. loadProject w p = Fulfilled r \<and> name_key r = name_key (JObj kvs)"
proof -
  from assms(2) obtain manifest
    where m: "catch_console_error (loadManifestJson w p (JObj kvs)) = Some manifest"
    by (cases "loadManifestJson w p (JObj kvs)") auto
  obtain icon where i: "catch_console_error (loadIcon w p) = Some icon"
    by (cases "loadIcon w p") (auto simp: loadIcon_def split: sum.splits)
  obtain stat where s: "catch_console_error (loadProjectFSStat w p) = Some stat"
    by (cases "loadProjectFSStat w p") (auto simp: loadProjectFSStat_def split: sum.splits)
  from merge_project_obj obtain r where r: "merge_project (JObj kvs) manifest icon stat = Inr r"
    by blast
  from assms(1) m i s r have "loadProject w p = Fulfilled r" by (simp add: loadProject_def)
  with name_key_merge_project[OF r] show ?thesis by blast
qed

lemma loadProjects_keys:
  assumes "schedule (length paths) sched" and "\<forall>p\<in>set paths. loadProject w p \<noteq> Pending"
    and "\<forall>p\<in>set paths. \<forall>r. loadProject w p = Fulfilled r \<longrightarrow> (\<exists>k. name_key r = Inr k)"
  shows "\<exists>m. loadProjects w sched paths = Fulfilled m
           \<and> fst ` set m
               = {k. \<exists>p\<in>set paths. \<exists>r. loadProject w p = Fulfilled r \<and> name_key r = Inr k}"
proof -
  define val where "val = (\<lambda>p. settled_value (loadProjects_iteratee w p))"
  have settled: "loadProjects_iteratee w p = Fulfilled (val p)" if "p \<in> set paths" for p
    using that assms(2)
    by (cases "loadProject w p") (auto simp: loadProjects_iteratee_def val_def settled_value_def)
  then have items: "map (loadProjects_iteratee w) paths = map Fulfilled (map val paths)"
    by simp
  from assms(1) have "schedule (length (map val paths)) sched" by simp
  from asyncMap_fulfilled[OF this]
  have run: "asyncMap (map (loadProjects_iteratee w) paths) sched = Some (None, map val paths)"
    by (simp only: items)
  have tr: "truthy (val p) \<longleftrightarrow> (\<exists>r. loadProject w p = Fulfilled r)"
    and vl: "loadProject w p = Fulfilled r \<Longrightarrow> val p = r" for p r
    by (cases "loadProject w p";
        auto simp: val_def settled_value_def loadProjects_iteratee_def dest: loadProject_truthy)+
  have "\<forall>x\<in>set (filter truthy (map val paths)). \<exists>k. name_key x = Inr k"
  proof
    fix x assume "x \<in> set (filter truthy (map val paths))"
    then obtain p where p: "p \<in> set paths" and t: "truthy (val p)" and x: "x = val p" by auto
    from t tr obtain r where r: "loadProject w p = Fulfilled r" by blast
    with assms(3) p vl[OF r] x show "\<exists>k. name_key x = Inr k" by blast
  qed
  from by_name_total[OF this] obtain m where m: "by_name (filter truthy (map val paths)) = Inr m"
    by blast
  with run have res: "loadProjects w sched paths = Fulfilled m" by (simp add: loadProjects_def)
  have "{k. \<exists>x\<in>set (filter truthy (map val paths)). name_key x = Inr k}
          = {k. \<exists>p\<in>set paths. \<exists>r. loadProject w p = Fulfilled r \<and> name_key r = Inr k}"
  proof (rule set_eqI, rule iffI)
    fix k assume "k \<in> {k. \<exists>x\<in>set (filter truthy (map val paths)). name_key x = Inr k}"
    then obtain p where p: "p \<in> set paths" and t: "truthy (val p)"
      and k: "name_key (val p) = Inr k" by auto
    from t tr obtain r where r: "loadProject w p = Fulfilled r" by blast
    with vl[OF r] k p
    show "k \<in> {k. \<exists>p\<in>set paths. \<exists>r. loadProject w p = Fulfilled r \<and> name_key r = Inr k}"
      by auto
  next
    fix k assume "k \<in> {k. \<exists>p\<in>set paths. \<exists>r. loadProject w p = Fulfilled r \<and> name_key r = Inr k}"
    then obtain p r where p: "p \<in> set paths" and r: "loadProject w p = Fulfilled r"
      and k: "name_key r = Inr k" by blast
    from r tr have "truthy (val p)" by blast
    with p have "val p \<in> set (filter truthy (map val paths))" by simp
    with vl[OF r] k
    show "k \<in> {k. \<exists>x\<in>set (filter truthy (map val paths)). name_key x = Inr k}" by auto
  qed
  with res keys_by_name[OF m] show ?thesis by simp
qed

section \<open>Properties of the dependency readers\<close>



lemma read_prop_obj: "read_prop (JObj kvs) k = lookup kvs k"
  by (simp add: read_prop_def)

lemma loadProjectDependency_installed:
  assumes "installed w p n = Some v"
  shows "\<exists>fields. loadProjectDependency w p n l = Fulfilled (JObj fields)
           \<and> name_key (JObj fields) = name_key v
           \<and> lookup fields ''location'' = JStr (location_name l)"
proof -
  from assms obtain data where f: "files w (dependencyPath p n) = Inr data"
    and q: "JSON_parse w data = Some v"
    by (auto simp: installed_def split: sum.splits)
  let ?fields = "AList.update ''location'' (JStr (location_name l))
                   (AList.update ''status'' (JStr ''idle'')
                     (pick v [''name'', ''description'', ''keywords'', ''version'', ''homepage'',
                              ''license'', ''repository'']))"
  have r: "loadProjectDependency w p n l = Fulfilled (JObj ?fields)"
    using f q by (simp add: loadProjectDependency_def)
  have "lookup ?fields ''name'' = read_prop v ''name''"
    by (simp add: lookup_update lookup_pick_read)
  then have k: "name_key (JObj ?fields) = name_key v"
    by (simp add: name_key_def read_prop_obj)
  have lo: "lookup ?fields ''location'' = JStr (location_name l)" by (simp add: lookup_update)
  from r k lo show ?thesis by blast
qed

lemma loadProjectDependency_location:
  assumes "loadProjectDependency w p n l = Fulfilled (JObj kvs)"
  shows "lookup kvs ''location'' = JStr (location_name l)"
  using assms
  by (auto simp: loadProjectDependency_def lookup_update split: sum.splits option.splits if_splits)

lemma dependency_queue_obj:
  "dependency_queue (JObj kvs) =
     Inr (map (\<lambda>n. \<lparr>name = n,
                     location = (if n \<in> set (keys_or_empty (lookup kvs ''devDependencies''))
                                 then DevDependencies else Dependencies)\<rparr>)
            (declared (JObj kvs)))"
  by (simp add: dependency_queue_def declared_def read_prop_obj Let_def)


lemma loadProjectDependencies_results:
  assumes "schedule (length q) sched" and "loadProjectDependencies w sched p q = Fulfilled ds"
  shows "\<exists>vs. dependency_items w p q = map Fulfilled vs \<and> ds = filter truthy vs"
proof -
  from assms(2) obtain results where a: "asyncMap (dependency_items w p q) sched = Some (None, results)"
    and d: "ds = filter truthy results"
    by (auto simp: loadProjectDependencies_items split: option.splits)
  from assms(1) have "schedule (length (dependency_items w p q)) sched"
    by (simp add: dependency_items_def)
  from asyncMap_success_values[OF this a] d show ?thesis by blast
qed

lemma loadAllProjectDependencies_obj:
  assumes "loadPackageJson w p = Fulfilled (JObj kvs)" and "dependency_queue (JObj kvs) = Inr q"
  shows "loadAllProjectDependencies w sched p =
     (case loadProjectDependencies w sched p q of
        Fulfilled ds \<Rightarrow> (case by_name ds of Inl e \<Rightarrow> Pending | Inr m \<Rightarrow> Fulfilled m)
      | Rejected e \<Rightarrow> Pending
      | Pending \<Rightarrow> Pending)"
  using assms by (simp add: loadAllProjectDependencies_def)

section \<open>Dependency metadata reader: the not-found case\<close>

text \<open>
  Claim C2. \<open>loadProjectDependency\<close> resolves to \<^verbatim>\<open>null\<close> exactly when reading the installed
  descriptor fails with the code \<^verbatim>\<open>ENOENT\<close>; when the read fails with any other code,
  the promise is rejected with that error.
\<close>

theorem loadProjectDependency_null_iff_ENOENT:
  "(loadProjectDependency w p d l = Fulfilled JNull
      \<longleftrightarrow> files w (dependencyPath p d) = Inl ''ENOENT'')
   \<and> (\<forall>code. files w (dependencyPath p d) = Inl code \<and> code \<noteq> ''ENOENT''
        \<longrightarrow> loadProjectDependency w p d l = Rejected (FsError code))"
  by (auto simp: loadProjectDependency_def split: sum.splits option.splits)

theorem loadProjectDependency_null_iff_ENOENT_witness:
  "files unreadable_world (dependencyPath ''/e'' ''baz'') = Inl ''EACCES''
   \<and> loadProjectDependency unreadable_world ''/e'' ''baz'' Dependencies
       = Rejected (FsError ''EACCES'')
   \<and> files installed_world (dependencyPath ''/a'' ''bar'') = Inl ''ENOENT''
   \<and> loadProjectDependency installed_world ''/a'' ''bar'' Dependencies = Fulfilled JNull"
proof -
  have e: "files unreadable_world (dependencyPath ''/e'' ''baz'') = Inl ''EACCES''"
    by code_simp
  have a: "files installed_world (dependencyPath ''/a'' ''bar'') = Inl ''ENOENT''"
    by code_simp
  from e loadProjectDependency_null_iff_ENOENT
         [of unreadable_world "''/e''" "''baz''" Dependencies]
  have "loadProjectDependency unreadable_world ''/e'' ''baz'' Dependencies
          = Rejected (FsError ''EACCES'')" by simp
  moreover from a loadProjectDependency_null_iff_ENOENT
         [of installed_world "''/a''" "''bar''" Dependencies]
  have "loadProjectDependency installed_world ''/a'' ''bar'' Dependencies = Fulfilled JNull"
    by simp
  ultimately show ?thesis using e a by simp
qed

section \<open>Dependency set aggregator: a rejected batch\<close>

text \<open>
  Claim C10. When the batch \<open>loadProjectDependencies\<close> is rejected, the promise that
  \<open>loadAllProjectDependencies\<close> returns never settles: it is neither fulfilled with a
  mapping nor rejected with the error.
\<close>

theorem loadAllProjectDependencies_pending_on_rejected_batch:
  assumes "loadPackageJson w p = Fulfilled packageJson"
    and "dependency_queue packageJson = Inr q"
    and "loadProjectDependencies w sched p q = Rejected e"
  shows "loadAllProjectDependencies w sched p = Pending"
  using assms by (simp add: loadAllProjectDependencies_def)

theorem loadAllProjectDependencies_pending_on_rejected_batch_witness:
  "loadPackageJson unreadable_world ''/e'' = Fulfilled unreadable_json
   \<and> dependency_queue unreadable_json = Inr [\<lparr>name = ''baz'', location = Dependencies\<rparr>]
   \<and> loadProjectDependencies unreadable_world [0] ''/e''
         [\<lparr>name = ''baz'', location = Dependencies\<rparr>] = Rejected (FsError ''EACCES'')
   \<and> loadAllProjectDependencies unreadable_world [0] ''/e'' = Pending"
proof -
  have l: "loadPackageJson unreadable_world ''/e'' = Fulfilled unreadable_json"
    by code_simp
  have d: "dependency_queue unreadable_json
             = Inr [\<lparr>name = ''baz'', location = Dependencies\<rparr>]"
    by code_simp
  have r: "loadProjectDependencies unreadable_world [0] ''/e''
             [\<lparr>name = ''baz'', location = Dependencies\<rparr>] = Rejected (FsError ''EACCES'')"
    by code_simp
  from loadAllProjectDependencies_pending_on_rejected_batch [OF l d r] l d r
  show ?thesis by simp
qed

section \<open>Dependency metadata reader: the record\<close>



section \<open>Project loader: what the merge touches\<close>

text \<open>
  Claim C8. In the record that \<open>loadProject\<close> returns, every field other than the three
  reserved keys \<^verbatim>\<open>__skpm_manifest\<close>, \<^verbatim>\<open>__skpm_icon\<close> and \<^verbatim>\<open>__skpm_createdAt\<close> is present
  exactly when the parsed descriptor has it, with the value parsed from the descriptor
  file; the merge sets the three reserved keys and nothing else.
\<close>

theorem loadProject_touches_reserved_keys_only:
  assumes "loadPackageJson w p = Fulfilled json" and "loadProject w p = Fulfilled project"
  shows "(\<forall>k. k \<notin> set reserved_keys \<longrightarrow>
            get_prop project k = get_prop json k \<and> has_prop project k = has_prop json k)
       \<and> (\<forall>k\<in>set reserved_keys. has_prop project k)"
proof -
  from loadProject_merge[OF assms] obtain manifest icon stat
    where m: "merge_project json manifest icon stat = Inr project" by blast
  from merge_project_frame[OF m] show ?thesis by blast
qed

theorem loadProject_touches_reserved_keys_only_witness:
  "loadPackageJson plugin_world ''/p'' = Fulfilled plugin_json
   \<and> loadProject plugin_world ''/p'' = Fulfilled plugin_project
   \<and> ''skpm'' \<notin> set reserved_keys
   \<and> get_prop plugin_project ''skpm'' = get_prop plugin_json ''skpm''
   \<and> has_prop plugin_project ''skpm''
   \<and> ''__skpm_icon'' \<in> set reserved_keys
   \<and> has_prop plugin_project ''__skpm_icon''"
proof -
  have l: "loadPackageJson plugin_world ''/p'' = Fulfilled plugin_json"
    by code_simp
  have r: "loadProject plugin_world ''/p'' = Fulfilled plugin_project"
    by code_simp
  have n: "''skpm'' \<notin> set reserved_keys" and i: "''__skpm_icon'' \<in> set reserved_keys"
    by (simp_all add: reserved_keys_def)
  have h: "has_prop plugin_json ''skpm''" by (simp add: plugin_json_def)
  from loadProject_touches_reserved_keys_only [OF l r] n i h l r
  show ?thesis by blast
qed

section \<open>Dependency set aggregator: the batch\<close>

text \<open>
  What the batch does, for every queue and every completion order: when every entry
  yields a result it returns these results, in the order of the queue, without the
  \<^verbatim>\<open>null\<close> ones; when the reader is rejected on some entry it is rejected with the error of
  such an entry; and when no entry is rejected and the reader never settles on some
  entry, it never settles.
\<close>

lemma loadProjectDependencies_filters_or_rejects:
  assumes "schedule (length q) sched"
  shows "(\<forall>vs. dependency_items w p q = map Fulfilled vs \<longrightarrow>
            loadProjectDependencies w sched p q = Fulfilled (filter (\<lambda>v. v \<noteq> JNull) vs))
       \<and> ((\<exists>i<length q. \<exists>e. dependency_items w p q ! i = Rejected e) \<longrightarrow>
            (\<exists>i<length q. \<exists>e. dependency_items w p q ! i = Rejected e
                \<and> loadProjectDependencies w sched p q = Rejected e))"
proof (intro conjI allI impI)
  fix vs assume items: "dependency_items w p q = map Fulfilled vs"
  then have "length vs = length q"
    by (metis dependency_items_def length_map)
  with assms have "asyncMap (map Fulfilled vs) sched = Some (None, vs)"
    by (simp add: asyncMap_fulfilled)
  with items filter_truthy_items[OF items]
  show "loadProjectDependencies w sched p q = Fulfilled (filter (\<lambda>v. v \<noteq> JNull) vs)"
    by (simp add: loadProjectDependencies_items)
next
  assume "\<exists>i<length q. \<exists>e. dependency_items w p q ! i = Rejected e"
  then obtain i e where i: "i < length (dependency_items w p q)"
    and e: "dependency_items w p q ! i = Rejected e"
    by (auto simp: dependency_items_def)
  have s: "schedule (length (dependency_items w p q)) sched"
    using assms by (simp add: dependency_items_def)
  from asyncMap_rejected[OF s i e] obtain j e' r
    where "j < length (dependency_items w p q)" "dependency_items w p q ! j = Rejected e'"
      "asyncMap (dependency_items w p q) sched = Some (Some e', r)" by blast
  then show "\<exists>i<length q. \<exists>e. dependency_items w p q ! i = Rejected e
                \<and> loadProjectDependencies w sched p q = Rejected e"
    by (auto simp: loadProjectDependencies_items dependency_items_def)
qed

lemma asyncMap_pending:
  assumes "schedule (length cbs) sched"
    and "\<forall>i<length cbs. \<forall>e. cbs ! i \<noteq> Rejected e"
    and "i < length cbs" and "cbs ! i = Pending"
  shows "asyncMap cbs sched = None"
proof (cases "asyncMap cbs sched")
  case None
  then show ?thesis .
next
  case (Some res)
  obtain err r where res: "res = (err, r)" by (cases res)
  show ?thesis
  proof (cases err)
    case None
    with Some res have "asyncMap cbs sched = Some (None, r)" by simp
    from asyncMap_success_fulfilled[OF assms(1) this assms(3)] assms(4) show ?thesis by simp
  next
    case (Some e)
    with \<open>asyncMap cbs sched = Some res\<close> res have "asyncMap cbs sched = Some (Some e, r)" by simp
    from asyncMap_error_source[OF this] assms(2) show ?thesis by blast
  qed
qed

lemma loadProjectDependencies_pending:
  assumes "schedule (length q) sched"
    and "\<forall>i<length q. \<forall>e. dependency_items w p q ! i \<noteq> Rejected e"
    and "i < length q" and "dependency_items w p q ! i = Pending"
  shows "loadProjectDependencies w sched p q = Pending"
proof -
  have len: "length (dependency_items w p q) = length q" by (simp add: dependency_items_def)
  from assms(1) have s: "schedule (length (dependency_items w p q)) sched" by (simp only: len)
  from assms(2) have n: "\<forall>i<length (dependency_items w p q).
      \<forall>e. dependency_items w p q ! i \<noteq> Rejected e" by (simp only: len)
  from assms(3) have i: "i < length (dependency_items w p q)" by (simp only: len)
  from asyncMap_pending[OF s n i assms(4)] show ?thesis
    by (simp add: loadProjectDependencies_items)
qed

text \<open>
  Claim C4 says that the batch returns the filtered results, or propagates the error
  of an entry that fails. On the queue of \<^verbatim>\<open>/f\<close> it does neither: the installed descriptor
  of \<^verbatim>\<open>bad\<close> is read and is cut off, \<^verbatim>\<open>JSON.parse\<close> throws its SyntaxError inside the callback
  of \<^verbatim>\<open>fs.readFile\<close>, the promise of \<open>loadProjectDependency\<close> is never settled, and the batch
  stays pending in both completion orders, although the reader yields the record of
  \<^verbatim>\<open>foo\<close>.
\<close>

theorem loadProjectDependencies_pending_on_malformed_descriptor:
  \<open>files broken_world (dependencyPath ''/f'' ''bad'') = Inr ''{"name":''
   \<and> JSON_parse broken_world ''{"name":'' = None
   \<and> loadProjectDependency broken_world ''/f'' ''foo'' Dependencies
       = Fulfilled (foo_record Dependencies)
   \<and> loadProjectDependency broken_world ''/f'' ''bad'' Dependencies = Pending
   \<and> loadProjectDependencies broken_world [0, 1] ''/f''
         [\<lparr>name = ''foo'', location = Dependencies\<rparr>, \<lparr>name = ''bad'', location = Dependencies\<rparr>]
       = Pending
   \<and> loadProjectDependencies broken_world [1, 0] ''/f''
         [\<lparr>name = ''foo'', location = Dependencies\<rparr>, \<lparr>name = ''bad'', location = Dependencies\<rparr>]
       = Pending\<close>
proof -
  have \<open>files broken_world (dependencyPath ''/f'' ''bad'') = Inr ''{"name":''\<close> by code_simp
  moreover have \<open>JSON_parse broken_world ''{"name":'' = None\<close> by code_simp
  moreover have "loadProjectDependency broken_world ''/f'' ''foo'' Dependencies
       = Fulfilled (foo_record Dependencies)" by code_simp
  moreover have "loadProjectDependency broken_world ''/f'' ''bad'' Dependencies = Pending"
    by code_simp
  moreover have "loadProjectDependencies broken_world [0, 1] ''/f''
         [\<lparr>name = ''foo'', location = Dependencies\<rparr>, \<lparr>name = ''bad'', location = Dependencies\<rparr>]
       = Pending" by code_simp
  moreover have "loadProjectDependencies broken_world [1, 0] ''/f''
         [\<lparr>name = ''foo'', location = Dependencies\<rparr>, \<lparr>name = ''bad'', location = Dependencies\<rparr>]
       = Pending" by code_simp
  ultimately show ?thesis by blast
qed

section \<open>Project set aggregator: two paths with one name\<close>

text \<open>
  Claim C9, as the specification states it: of two paths that yield the same name, the
  one that completes later is the one in the mapping. It fails: with \<^verbatim>\<open>/b\<close> completing
  before \<^verbatim>\<open>/a\<close>, the fold in completion order keeps the record of \<^verbatim>\<open>/a\<close>, and
  \<open>loadProjects\<close> returns the record of \<^verbatim>\<open>/b\<close>.
\<close>

theorem loadProjects_completion_order_counterexample:
  "schedule (length [''/a'', ''/b'']) [1, 0]
   \<and> loadProject projects_world ''/a'' = Fulfilled project_a
   \<and> loadProject projects_world ''/b'' = Fulfilled project_b
   \<and> name_key project_a = name_key project_b
   \<and> project_a \<noteq> project_b
   \<and> loadProjects_in_completion_order projects_world [1, 0] [''/a'', ''/b'']
       = Fulfilled [(''n'', project_a)]
   \<and> loadProjects projects_world [1, 0] [''/a'', ''/b''] = Fulfilled [(''n'', project_b)]"
proof -
  have "schedule (length [''/a'', ''/b'']) [1, 0]" by code_simp
  moreover have "loadProject projects_world ''/a'' = Fulfilled project_a" by code_simp
  moreover have "loadProject projects_world ''/b'' = Fulfilled project_b" by code_simp
  moreover have "name_key project_a = name_key project_b" by code_simp
  moreover have "project_a \<noteq> project_b" by (simp add: project_a_def project_b_def)
  moreover have "loadProjects_in_completion_order projects_world [1, 0] [''/a'', ''/b'']
       = Fulfilled [(''n'', project_a)]" by code_simp
  moreover have "loadProjects projects_world [1, 0] [''/a'', ''/b''] = Fulfilled [(''n'', project_b)]"
    by code_simp
  ultimately show ?thesis by blast
qed

text \<open>
  Claim C9, amended. \<^verbatim>\<open>async/map\<close> stores each result at the index of its item, so the
  fold runs in the order of the paths: for every completion order, the record of a
  path is the one in the mapping under its name when no later path of the array yields
  a record with that name. There is no conflict detection and no error.
\<close>

theorem loadProjects_last_path_wins:
  assumes "schedule (length paths) sched"
    and "loadProjects w sched paths = Fulfilled m"
    and "j < length paths"
    and "loadProject w (paths ! j) = Fulfilled r"
    and "\<forall>l. j < l \<and> l < length paths \<longrightarrow>
           (\<forall>r'. loadProject w (paths ! l) = Fulfilled r' \<longrightarrow> name_key r' \<noteq> name_key r)"
  shows "\<exists>k. name_key r = Inr k \<and> map_of m k = Some r"
proof -
  from loadProjects_results[OF assms(1,2)] obtain results where
    items: "map (loadProjects_iteratee w) paths = map Fulfilled results"
    and m: "by_name (filter truthy results) = Inr m" by blast
  from items have len: "length results = length paths"
    by (metis length_map)
  have item: "loadProjects_iteratee w (paths ! l) = Fulfilled (results ! l)"
    if "l < length paths" for l
  proof -
    from that have "map (loadProjects_iteratee w) paths ! l = loadProjects_iteratee w (paths ! l)"
      by simp
    moreover from that len have "map Fulfilled results ! l = Fulfilled (results ! l)" by simp
    ultimately show ?thesis using items by simp
  qed
  from assms(4) have "loadProjects_iteratee w (paths ! j) = Fulfilled r"
    by (simp add: loadProjects_iteratee_def)
  with item[OF assms(3)] have rj: "results ! j = r" by simp
  have tr: "truthy r" by (rule loadProject_truthy[OF assms(4)])
  from assms(3) len rj have "r \<in> set results" by (metis nth_mem)
  with tr have "r \<in> set (filter truthy results)" by simp
  from by_name_names[OF m this] obtain k where k: "name_key r = Inr k" by blast
  let ?P = "\<lambda>x. truthy x \<and> name_key x = Inr k"
  have Pj: "?P (results ! j)" using rj tr k by simp
  have later: "\<forall>l. j < l \<and> l < length results \<longrightarrow> \<not> ?P (results ! l)"
  proof (intro allI impI)
    fix l assume l: "j < l \<and> l < length results"
    with len have ll: "l < length paths" by simp
    from loadProjects_iteratee_fulfilled[OF item[OF ll]]
    show "\<not> ?P (results ! l)"
    proof
      assume "loadProject w (paths ! l) = Fulfilled (results ! l)"
      with assms(5) l ll have "name_key (results ! l) \<noteq> name_key r" by blast
      with k show ?thesis by simp
    next
      assume "results ! l = JNull \<and> (\<exists>e. loadProject w (paths ! l) = Rejected e)"
      then show ?thesis by simp
    qed
  qed
  have "map_of m k = find (\<lambda>x. name_key x = Inr k) (rev (filter truthy results))"
    by (rule map_of_by_name[OF m])
  also have "\<dots> = find ?P (rev results)"
    by (simp add: rev_filter find_filter)
  also have "\<dots> = Some (results ! j)"
    using assms(3) len Pj later by (intro find_rev_last) simp_all
  finally have "map_of m k = Some r" using rj by simp
  with k show ?thesis by blast
qed

theorem loadProjects_last_path_wins_witness:
  "schedule (length [''/a'', ''/b'']) [1, 0]
   \<and> loadProjects projects_world [1, 0] [''/a'', ''/b''] = Fulfilled [(''n'', project_b)]
   \<and> loadProject projects_world ([''/a'', ''/b''] ! 1) = Fulfilled project_b
   \<and> name_key project_b = Inr ''n''
   \<and> map_of [(''n'', project_b)] ''n'' = Some project_b"
proof -
  have s: "schedule (length [''/a'', ''/b'']) [1, 0]" by code_simp
  have l: "loadProjects projects_world [1, 0] [''/a'', ''/b''] = Fulfilled [(''n'', project_b)]"
    by code_simp
  have j: "1 < length [''/a'', ''/b'']" by simp
  have r: "loadProject projects_world ([''/a'', ''/b''] ! 1) = Fulfilled project_b"
    by code_simp
  have k: "name_key project_b = Inr ''n''" by code_simp
  have n: "\<forall>l. 1 < l \<and> l < length [''/a'', ''/b''] \<longrightarrow>
           (\<forall>r'. loadProject projects_world ([''/a'', ''/b''] ! l) = Fulfilled r'
              \<longrightarrow> name_key r' \<noteq> name_key project_b)"
  proof (intro allI impI)
    fix l r' assume "1 < l \<and> l < length [''/a'', ''/b'']"
    then have False by (simp add: numeral_2_eq_2) arith
    then show "name_key r' \<noteq> name_key project_b" ..
  qed
  from loadProjects_last_path_wins [OF s l j r n] k
  have "map_of [(''n'', project_b)] ''n'' = Some project_b" by simp
  with s l r k show ?thesis by blast
qed

section \<open>Project set aggregator: a descriptor that does not parse\<close>

text \<open>
  Claim C1 says that a project whose descriptor does not parse is left out of the
  mapping. On the descriptor of \<^verbatim>\<open>/c\<close>, which is cut off, \<^verbatim>\<open>JSON.parse\<close> throws inside the
  callback of \<^verbatim>\<open>fs.readFile\<close>: the promise of \<open>loadPackageJson\<close> is never settled, the
  iteratee never calls back, and \<open>loadProjects\<close> stays pending in both completion orders,
  although \<^verbatim>\<open>/a\<close> loads.
\<close>

theorem loadProjects_pending_on_malformed_descriptor:
  "loadProject projects_world ''/a'' = Fulfilled project_a
   \<and> loadPackageJson projects_world ''/c'' = Pending
   \<and> loadProject projects_world ''/c'' = Pending
   \<and> loadProjects projects_world [0, 1] [''/a'', ''/c''] = Pending
   \<and> loadProjects projects_world [1, 0] [''/a'', ''/c''] = Pending"
proof -
  have "loadProject projects_world ''/a'' = Fulfilled project_a" by code_simp
  moreover have "loadPackageJson projects_world ''/c'' = Pending" by code_simp
  moreover have "loadProject projects_world ''/c'' = Pending" by code_simp
  moreover have "loadProjects projects_world [0, 1] [''/a'', ''/c''] = Pending" by code_simp
  moreover have "loadProjects projects_world [1, 0] [''/a'', ''/c''] = Pending" by code_simp
  ultimately show ?thesis by blast
qed

section \<open>Dependency set aggregator: the keys of the mapping\<close>




section \<open>Dependency set aggregator: a name declared in both sections\<close>

text \<open>
  Claim C5, as the specification states it: the entry for a name declared in both
  sections carries the location \<^verbatim>\<open>devDependencies\<close>. It fails: in \<^verbatim>\<open>/c\<close>, \<^verbatim>\<open>foo\<close> is declared
  in both sections, and the entry under \<^verbatim>\<open>foo\<close> is the record of \<^verbatim>\<open>zzz\<close>, a production
  dependency whose installed descriptor gives the name \<^verbatim>\<open>foo\<close>; its location is
  \<^verbatim>\<open>dependencies\<close>.
\<close>

theorem loadAllProjectDependencies_both_sections_counterexample:
  "loadPackageJson shadow_world ''/c'' = Fulfilled shadow_json
   \<and> ''foo'' \<in> set (keys_or_empty (read_prop shadow_json ''dependencies''))
   \<and> ''foo'' \<in> set (keys_or_empty (read_prop shadow_json ''devDependencies''))
   \<and> schedule (length (declared shadow_json)) [0, 1, 2]
   \<and> loadAllProjectDependencies shadow_world [0, 1, 2] ''/c'' = Fulfilled [(''foo'', shadow_record)]
   \<and> read_prop shadow_record ''location'' = JStr ''dependencies''"
proof -
  have "loadPackageJson shadow_world ''/c'' = Fulfilled shadow_json" by code_simp
  moreover have "''foo'' \<in> set (keys_or_empty (read_prop shadow_json ''dependencies''))"
    by code_simp
  moreover have "''foo'' \<in> set (keys_or_empty (read_prop shadow_json ''devDependencies''))"
    by code_simp
  moreover have "schedule (length (declared shadow_json)) [0, 1, 2]" by code_simp
  moreover have "loadAllProjectDependencies shadow_world [0, 1, 2] ''/c''
      = Fulfilled [(''foo'', shadow_record)]" by code_simp
  moreover have "read_prop shadow_record ''location'' = JStr ''dependencies''" by code_simp
  ultimately show ?thesis by blast
qed

text \<open>
  Claim C5, amended. For a name declared in both sections whose installed descriptor
  is read and parsed and gives that same name, the entry under that name in the result
  of \<open>loadAllProjectDependencies\<close> carries the location \<^verbatim>\<open>devDependencies\<close>, for every
  completion order.
\<close>

theorem loadAllProjectDependencies_both_sections:
  assumes "loadPackageJson w p = Fulfilled (JObj kvs)"
    and "n \<in> set (keys_or_empty (lookup kvs ''dependencies''))"
    and "n \<in> set (keys_or_empty (lookup kvs ''devDependencies''))"
    and "schedule (length (declared (JObj kvs))) sched"
    and "loadAllProjectDependencies w sched p = Fulfilled m"
    and "installed w p n = Some v" and "name_key v = Inr n"
  shows "\<exists>kvs'. map_of m n = Some (JObj kvs')
           \<and> lookup kvs' ''location'' = JStr ''devDependencies''"
proof -
  let ?deps = "keys_or_empty (lookup kvs ''dependencies'')"
  let ?devDeps = "keys_or_empty (lookup kvs ''devDependencies'')"
  let ?mk = "\<lambda>n. \<lparr>name = n, location = (if n \<in> set ?devDeps then DevDependencies
                                            else Dependencies)\<rparr>"
  let ?q = "map ?mk (declared (JObj kvs))"
  have dq: "dependency_queue (JObj kvs) = Inr ?q" by (rule dependency_queue_obj)
  have split: "?q = map ?mk ?deps @ map ?mk ?devDeps"
    by (simp add: declared_def read_prop_obj)
  have sch: "schedule (length ?q) sched" using assms(4) by simp
  from assms(5) obtain ds where b: "loadProjectDependencies w sched p ?q = Fulfilled ds"
    and m: "by_name ds = Inr m"
    by (auto simp: loadAllProjectDependencies_obj[OF assms(1) dq]
             split: promise.splits sum.splits)
  from loadProjectDependencies_results[OF sch b] obtain vs where
    items: "dependency_items w p ?q = map Fulfilled vs" and ds: "ds = filter truthy vs" by blast
  let ?A = "dependency_items w p (map ?mk ?deps)"
  let ?B = "dependency_items w p (map ?mk ?devDeps)"
  from items split have ab: "map Fulfilled vs = ?A @ ?B"
    by (simp add: dependency_items_def)
  define vs1 where "vs1 = take (length ?A) vs"
  define vs2 where "vs2 = drop (length ?A) vs"
  have vs: "vs = vs1 @ vs2" by (simp add: vs1_def vs2_def)
  have "map Fulfilled vs2 = drop (length ?A) (map Fulfilled vs)"
    by (simp add: vs2_def drop_map)
  also have "\<dots> = ?B" by (simp add: ab)
  finally have B: "map Fulfilled vs2 = ?B" .
  have dev: "\<exists>kvs'. x = JObj kvs' \<and> lookup kvs' ''location'' = JStr ''devDependencies''"
    if x: "x \<in> set vs2" and t: "truthy x" for x
  proof -
    from x have "Fulfilled x \<in> set (map Fulfilled vs2)" by simp
    with B have "Fulfilled x \<in> (\<lambda>n'. loadProjectDependency w p n' DevDependencies) ` set ?devDeps"
      by (auto simp: dependency_items_def)
    then obtain n' where "Fulfilled x = loadProjectDependency w p n' DevDependencies"
      by (rule imageE)
    then have l: "loadProjectDependency w p n' DevDependencies = Fulfilled x" by simp
    from loadProjectDependency_value[OF l] t obtain kvs' where k: "x = JObj kvs'" by auto
    with l loadProjectDependency_location[of w p n' DevDependencies kvs']
    have "lookup kvs' ''location'' = JStr ''devDependencies''" by simp
    with k show ?thesis by blast
  qed
  from loadProjectDependency_installed[OF assms(6), of DevDependencies] assms(7)
  obtain kvs0 where r0: "loadProjectDependency w p n DevDependencies = Fulfilled (JObj kvs0)"
    and k0: "name_key (JObj kvs0) = Inr n" by auto
  from assms(3) r0 have "Fulfilled (JObj kvs0) \<in> set ?B"
    by (force simp: dependency_items_def)
  with B have "Fulfilled (JObj kvs0) \<in> set (map Fulfilled vs2)" by simp
  then have "JObj kvs0 \<in> set vs2" by auto
  then have "JObj kvs0 \<in> set (rev (filter truthy vs2))" by simp
  from find_exists[OF this, of "\<lambda>x. name_key x = Inr n"] k0
  obtain y where y: "find (\<lambda>x. name_key x = Inr n) (rev (filter truthy vs2)) = Some y"
    by blast
  from m have "by_name (filter truthy vs1 @ filter truthy vs2) = Inr m" by (simp add: ds vs)
  from map_of_by_name[OF this, of n]
  have "map_of m n
          = find (\<lambda>x. name_key x = Inr n) (rev (filter truthy vs2) @ rev (filter truthy vs1))"
    by simp
  also have "\<dots> = Some y" by (rule find_append_Some[OF y])
  finally have res: "map_of m n = Some y" .
  from find_Some_in[OF y] have "y \<in> set vs2" and "truthy y" by simp_all
  from dev[OF this] res show ?thesis by blast
qed

theorem loadAllProjectDependencies_both_sections_witness:
  "loadPackageJson both_world ''/d'' = Fulfilled both_json
   \<and> ''foo'' \<in> set (keys_or_empty (read_prop both_json ''dependencies''))
   \<and> ''foo'' \<in> set (keys_or_empty (read_prop both_json ''devDependencies''))
   \<and> schedule (length (declared both_json)) [1, 0]
   \<and> loadAllProjectDependencies both_world [1, 0] ''/d''
       = Fulfilled [(''foo'', foo_record DevDependencies)]
   \<and> installed both_world ''/d'' ''foo'' = Some foo_json
   \<and> name_key foo_json = Inr ''foo''
   \<and> (\<exists>kvs'. map_of [(''foo'', foo_record DevDependencies)] ''foo'' = Some (JObj kvs')
          \<and> lookup kvs' ''location'' = JStr ''devDependencies'')"
proof -
  let ?kvs = "[(''dependencies'', JObj [(''foo'', JStr ''^1.0.0'')]),
               (''devDependencies'', JObj [(''foo'', JStr ''^1.0.0'')])]"
  have j: "both_json = JObj ?kvs" by (simp add: both_json_def)
  have l: "loadPackageJson both_world ''/d'' = Fulfilled both_json" by code_simp
  have a: "''foo'' \<in> set (keys_or_empty (read_prop both_json ''dependencies''))" by code_simp
  have b: "''foo'' \<in> set (keys_or_empty (read_prop both_json ''devDependencies''))" by code_simp
  have s: "schedule (length (declared both_json)) [1, 0]" by code_simp
  have r: "loadAllProjectDependencies both_world [1, 0] ''/d''
             = Fulfilled [(''foo'', foo_record DevDependencies)]" by code_simp
  have i: "installed both_world ''/d'' ''foo'' = Some foo_json" by code_simp
  have k: "name_key foo_json = Inr ''foo''" by code_simp
  from a have a': "''foo'' \<in> set (keys_or_empty (lookup ?kvs ''dependencies''))"
    by (simp add: j read_prop_obj)
  from b have b': "''foo'' \<in> set (keys_or_empty (lookup ?kvs ''devDependencies''))"
    by (simp add: j read_prop_obj)
  from loadAllProjectDependencies_both_sections [OF l[unfolded j] a' b' s[unfolded j] r i k]
  have "\<exists>kvs'. map_of [(''foo'', foo_record DevDependencies)] ''foo'' = Some (JObj kvs')
          \<and> lookup kvs' ''location'' = JStr ''devDependencies''" .
  with l a b s r i k show ?thesis by blast
qed

section \<open>JSON codec: a quoted string is read back\<close>

lemma hex_value_hex_digit: "n < 16 \<Longrightarrow> hex_value (hex_digit n) = Some n"
  by (simp add: hex_value_def hex_digit_def Let_def)

lemma hex4_control:
  assumes "n < 32"
  shows "hex4 (CHR ''0'' # CHR ''0'' # hex_digit (n div 16) # hex_digit (n mod 16) # rest) = Some n"
proof -
  have a: "hex_value (hex_digit (n div 16)) = Some (n div 16)"
    using assms by (intro hex_value_hex_digit) simp
  have b: "hex_value (hex_digit (n mod 16)) = Some (n mod 16)"
    by (intro hex_value_hex_digit) simp
  have z: "hex_value (CHR ''0'') = Some 0" by (simp add: hex_value_def)
  show ?thesis unfolding hex4_def list.case a b z by simp
qed

lemma unicode_escape_control:
  assumes "(of_char c :: nat) < 32"
  shows "unicode_escape (CHR ''0'' # CHR ''0'' # hex_digit ((of_char c :: nat) div 16)
                          # hex_digit ((of_char c :: nat) mod 16) # rest) = Some ([c], 4)"
proof -
  have u: "utf8 (of_char c) = [c]" using assms by (simp add: utf8_def)
  have s: "\<not> (55296 \<le> (of_char c :: nat) \<and> (of_char c :: nat) < 56320)" using assms by simp
  show ?thesis unfolding unicode_escape_def hex4_control[OF assms] option.case if_not_P[OF s] u ..
qed

lemma string_body_backslash:
  assumes "e \<noteq> CHR ''u''" "unescape e = Some x"
  shows "string_body (CHR 0x5C # e # rest)
           = (case string_body rest of None \<Rightarrow> None | Some (s, r) \<Rightarrow> Some (x # s, r))"
  using assms by simp

lemma string_body_unicode:
  assumes "unicode_escape cs = Some (bytes, k)"
  shows "string_body (CHR 0x5C # CHR ''u'' # cs)
           = (case string_body (drop k cs) of None \<Rightarrow> None | Some (s, r) \<Rightarrow> Some (bytes @ s, r))"
  using assms by simp

lemma string_body_plain:
  assumes "c \<noteq> CHR 0x22" "c \<noteq> CHR 0x5C" "\<not> (of_char c :: nat) < 32"
  shows "string_body (c # rest)
           = (case string_body rest of None \<Rightarrow> None | Some (s, r) \<Rightarrow> Some (c # s, r))"
  using assms by (cases rest) simp_all

lemma string_body_escape_char:
  "string_body (escape_char c @ rest)
     = (case string_body rest of None \<Rightarrow> None | Some (s, r) \<Rightarrow> Some (c # s, r))"
proof -
  consider (quote) "c = CHR 0x22" | (backslash) "c = CHR 0x5C" | (b) "c = CHR 0x08"
    | (t) "c = CHR 0x09" | (n) "c = CHR 0x0A" | (f) "c = CHR 0x0C" | (r) "c = CHR 0x0D"
    | (control) "c \<noteq> CHR 0x22" "c \<noteq> CHR 0x5C" "c \<noteq> CHR 0x08" "c \<noteq> CHR 0x09" "c \<noteq> CHR 0x0A"
        "c \<noteq> CHR 0x0C" "c \<noteq> CHR 0x0D" "(of_char c :: nat) < 32"
    | (plain) "c \<noteq> CHR 0x22" "c \<noteq> CHR 0x5C" "c \<noteq> CHR 0x08" "c \<noteq> CHR 0x09" "c \<noteq> CHR 0x0A"
        "c \<noteq> CHR 0x0C" "c \<noteq> CHR 0x0D" "\<not> (of_char c :: nat) < 32"
    by blast
  then show ?thesis
  proof cases
    case quote
    have "escape_char c = [CHR 0x5C, c]" using quote by (simp add: escape_char_def)
    moreover have "unescape c = Some c" "c \<noteq> CHR ''u''" using quote by (simp_all add: unescape_def)
    ultimately show ?thesis using string_body_backslash[of c c rest] by simp
  next
    case backslash
    have "escape_char c = [CHR 0x5C, c]" using backslash by (simp add: escape_char_def)
    moreover have "unescape c = Some c" "c \<noteq> CHR ''u''" using backslash by (simp_all add: unescape_def)
    ultimately show ?thesis using string_body_backslash[of c c rest] by simp
  next
    case b
    have "escape_char c = [CHR 0x5C, CHR ''b'']" using b by (simp add: escape_char_def)
    moreover have "unescape (CHR ''b'') = Some c" using b by (simp add: unescape_def)
    ultimately show ?thesis using string_body_backslash[of "CHR ''b''" c rest] by simp
  next
    case t
    have "escape_char c = [CHR 0x5C, CHR ''t'']" using t by (simp add: escape_char_def)
    moreover have "unescape (CHR ''t'') = Some c" using t by (simp add: unescape_def)
    ultimately show ?thesis using string_body_backslash[of "CHR ''t''" c rest] by simp
  next
    case n
    have "escape_char c = [CHR 0x5C, CHR ''n'']" using n by (simp add: escape_char_def)
    moreover have "unescape (CHR ''n'') = Some c" using n by (simp add: unescape_def)
    ultimately show ?thesis using string_body_backslash[of "CHR ''n''" c rest] by simp
  next
    case f
    have "escape_char c = [CHR 0x5C, CHR ''f'']" using f by (simp add: escape_char_def)
    moreover have "unescape (CHR ''f'') = Some c" using f by (simp add: unescape_def)
    ultimately show ?thesis using string_body_backslash[of "CHR ''f''" c rest] by simp
  next
    case r
    have "escape_char c = [CHR 0x5C, CHR ''r'']" using r by (simp add: escape_char_def)
    moreover have "unescape (CHR ''r'') = Some c" using r by (simp add: unescape_def)
    ultimately show ?thesis using string_body_backslash[of "CHR ''r''" c rest] by simp
  next
    case control
    have e: "escape_char c = [CHR 0x5C, CHR ''u'', CHR ''0'', CHR ''0'',
         hex_digit ((of_char c :: nat) div 16), hex_digit ((of_char c :: nat) mod 16)]"
      using control by (simp add: escape_char_def)
    show ?thesis
      by (simp add: e unicode_escape_control[OF control(8)] split: option.splits)
  next
    case plain
    have "escape_char c = [c]" using plain by (simp add: escape_char_def)
    then show ?thesis using string_body_plain[OF plain(1,2,8), of rest] by simp
  qed
qed

lemma string_body_quoted:
  "string_body (concat (map escape_char s) @ CHR 0x22 # r) = Some (s, r)"
proof (induction s)
  case Nil
  show ?case by (cases r) simp_all
next
  case (Cons c s)
  show ?case by (simp add: string_body_escape_char Cons.IH)
qed

section \<open>JSON codec: a numeric text is read back\<close>

lemma digits_all_append:
  assumes "dropWhile is_digit t = []" "ends_token r"
  shows "takeWhile is_digit (t @ r) = t" "dropWhile is_digit (t @ r) = r"
    "takeWhile is_digit t = t"
proof -
  have a: "\<forall>x\<in>set t. is_digit x" using assms(1) by (simp add: dropWhile_eq_Nil_conv)
  have b: "takeWhile is_digit r = []" "dropWhile is_digit r = r"
    using assms(2) by (cases r; simp add: ends_token_def)+
  show "takeWhile is_digit (t @ r) = t" using a b by (simp add: takeWhile_append2)
  show "dropWhile is_digit (t @ r) = r" using a b by (simp add: dropWhile_append2)
  show "takeWhile is_digit t = t" using a by simp
qed

lemma digits_some_append:
  assumes "dropWhile is_digit t \<noteq> []"
  shows "takeWhile is_digit (t @ r) = takeWhile is_digit t"
    "dropWhile is_digit (t @ r) = dropWhile is_digit t @ r"
proof -
  obtain x where x: "x \<in> set t" "\<not> is_digit x"
    using assms by (auto simp: dropWhile_eq_Nil_conv)
  show "takeWhile is_digit (t @ r) = takeWhile is_digit t"
    using x by (rule takeWhile_append1)
  show "dropWhile is_digit (t @ r) = dropWhile is_digit t @ r"
    using x by (rule dropWhile_append1)
qed

lemma scan_exp_ends: "ends_token r \<Longrightarrow> scan_exp acc r = Some (acc, r)"
  by (cases r) (simp_all add: scan_exp_def ends_token_def)

lemma scan_frac_ends: "ends_token r \<Longrightarrow> scan_frac acc r = Some (acc, r)"
  by (cases r) (simp_all add: scan_frac_def scan_exp_def ends_token_def)

lemma scan_exp_digits:
  assumes "scan_exp' = (\<lambda>acc c sg t. if takeWhile is_digit t = [] then None
                           else Some (acc @ c # sg @ takeWhile is_digit t, dropWhile is_digit t))"
    and "scan_exp' acc c sg t = Some (tok, [])" "ends_token r"
  shows "scan_exp' acc c sg (t @ r) = Some (tok, r)"
proof -
  have ne: "takeWhile is_digit t \<noteq> []" and d: "dropWhile is_digit t = []"
    and tok: "tok = acc @ c # sg @ takeWhile is_digit t"
    using assms(2) unfolding assms(1) by (auto split: if_splits)
  note tw = digits_all_append[OF d assms(3)]
  show ?thesis unfolding assms(1) using ne tok by (simp add: tw)
qed

lemma scan_exp_Cons:
  "scan_exp acc (c # t) =
     (if c = CHR ''e'' \<or> c = CHR ''E'' then
        (case t of
           [] \<Rightarrow> None
         | x # u \<Rightarrow>
             (if x = CHR ''+'' \<or> x = CHR ''-'' then
                (if takeWhile is_digit u = [] then None
                 else Some (acc @ c # [x] @ takeWhile is_digit u, dropWhile is_digit u))
              else
                (if takeWhile is_digit t = [] then None
                 else Some (acc @ c # [] @ takeWhile is_digit t, dropWhile is_digit t))))
      else Some (acc, c # t))"
  by (cases t) (simp_all add: scan_exp_def Let_def)

lemma scan_exp_append:
  assumes "scan_exp acc s = Some (tok, [])" "ends_token r"
  shows "scan_exp acc (s @ r) = Some (tok, r)"
proof (cases s)
  case Nil
  then have "tok = acc" using assms(1) by (simp add: scan_exp_def)
  then show ?thesis using Nil scan_exp_ends[OF assms(2)] by simp
next
  case (Cons c t)
  show ?thesis
  proof (cases "c = CHR ''e'' \<or> c = CHR ''E''")
    case False
    then show ?thesis using assms Cons by (simp add: scan_exp_Cons)
  next
    case True
    define f where "f = (\<lambda>acc c sg t. if takeWhile is_digit t = [] then None
                           else Some (acc @ c # sg @ takeWhile is_digit t, dropWhile is_digit t))"
    show ?thesis
    proof (cases t)
      case Nil
      then show ?thesis using assms(1) Cons True by (simp add: scan_exp_Cons)
    next
      case t: (Cons x u)
      show ?thesis
      proof (cases "x = CHR ''+'' \<or> x = CHR ''-''")
        case sg: True
        have "f acc c [x] u = Some (tok, [])"
          using assms(1) Cons True t sg by (simp add: scan_exp_Cons f_def)
        from scan_exp_digits[OF f_def this assms(2)]
        show ?thesis using Cons True t sg by (simp add: scan_exp_Cons f_def)
      next
        case sg: False
        have "f acc c [] t = Some (tok, [])"
          using assms(1) Cons True t sg by (simp add: scan_exp_Cons f_def)
        from scan_exp_digits[OF f_def this assms(2)]
        have "f acc c [] ((x # u) @ r) = Some (tok, r)" using t by simp
        then show ?thesis using Cons True t sg by (simp add: scan_exp_Cons f_def)
      qed
    qed
  qed
qed

lemma scan_frac_Cons:
  "scan_frac acc (c # t) =
     (if c = CHR ''.'' then
        (if takeWhile is_digit t = [] then None
         else scan_exp (acc @ c # takeWhile is_digit t) (dropWhile is_digit t))
      else scan_exp acc (c # t))"
  by (simp add: scan_frac_def Let_def)

lemma scan_frac_append:
  assumes "scan_frac acc s = Some (tok, [])" "ends_token r"
  shows "scan_frac acc (s @ r) = Some (tok, r)"
proof (cases s)
  case Nil
  then have "tok = acc" using assms(1) by (simp add: scan_frac_def)
  then show ?thesis using Nil scan_frac_ends[OF assms(2)] by simp
next
  case (Cons c t)
  show ?thesis
  proof (cases "c = CHR ''.''")
    case False
    then have "scan_exp acc s = Some (tok, [])" using assms Cons by (simp add: scan_frac_Cons)
    from scan_exp_append[OF this assms(2)] show ?thesis using False Cons
      by (simp add: scan_frac_Cons)
  next
    case True
    have ne: "takeWhile is_digit t \<noteq> []"
      and e: "scan_exp (acc @ c # takeWhile is_digit t) (dropWhile is_digit t) = Some (tok, [])"
      using assms(1) Cons True by (auto simp: scan_frac_Cons split: if_splits)
    show ?thesis
    proof (cases "dropWhile is_digit t = []")
      case all: True
      note tw = digits_all_append[OF all assms(2)]
      have "tok = acc @ c # t" using e all tw by (simp add: scan_exp_def)
      moreover have "t \<noteq> []" using ne by auto
      ultimately show ?thesis using True Cons
        by (simp add: scan_frac_Cons tw(1,2) scan_exp_ends[OF assms(2)])
    next
      case False
      note tw = digits_some_append[OF False, of r]
      show ?thesis using True Cons ne scan_exp_append[OF e assms(2)]
        by (simp add: scan_frac_Cons tw)
    qed
  qed
qed

lemma scan_int_Cons:
  "scan_int acc (c # t) =
     (if c = CHR ''0'' then scan_frac (acc @ [c]) t
      else if is_digit c then
        scan_frac (acc @ c # takeWhile is_digit t) (dropWhile is_digit t)
      else None)"
  by (simp add: scan_int_def)

lemma scan_int_append:
  assumes "scan_int acc s = Some (tok, [])" "ends_token r"
  shows "scan_int acc (s @ r) = Some (tok, r)"
proof (cases s)
  case Nil
  then show ?thesis using assms by (simp add: scan_int_def)
next
  case (Cons c t)
  show ?thesis
  proof (cases "c = CHR ''0''")
    case True
    then have "scan_frac (acc @ [c]) t = Some (tok, [])" using assms Cons
      by (simp add: scan_int_Cons)
    from scan_frac_append[OF this assms(2)] show ?thesis using True Cons
      by (simp add: scan_int_Cons)
  next
    case False
    then have dg: "is_digit c"
      and e: "scan_frac (acc @ c # takeWhile is_digit t) (dropWhile is_digit t) = Some (tok, [])"
      using assms(1) Cons by (auto simp: scan_int_Cons split: if_splits)
    show ?thesis
    proof (cases "dropWhile is_digit t = []")
      case True
      note tw = digits_all_append[OF True assms(2)]
      have "tok = acc @ c # t" using e True tw by (simp add: scan_frac_def)
      then show ?thesis using False Cons dg
        by (simp add: scan_int_Cons tw(1,2) scan_frac_ends[OF assms(2)])
    next
      case F: False
      note tw = digits_some_append[OF F, of r]
      show ?thesis using False Cons dg scan_frac_append[OF e assms(2)]
        by (simp add: scan_int_Cons tw)
    qed
  qed
qed

lemma scan_number_append:
  assumes "scan_number s = Some (tok, [])" "ends_token r"
  shows "scan_number (s @ r) = Some (tok, r)"
proof (cases s)
  case Nil
  then show ?thesis using assms by (simp add: scan_number_def)
next
  case (Cons c t)
  show ?thesis
  proof (cases "c = CHR ''-''")
    case True
    then have "scan_int [c] t = Some (tok, [])" using assms Cons by (simp add: scan_number_def)
    from scan_int_append[OF this assms(2)] show ?thesis using True Cons
      by (simp add: scan_number_def)
  next
    case False
    then have "scan_int [] s = Some (tok, [])" using assms Cons by (simp add: scan_number_def)
    from scan_int_append[OF this assms(2)] show ?thesis using False Cons
      by (simp add: scan_number_def)
  qed
qed

lemma number_token_head:
  assumes "number_token s"
  obtains c t where "s = c # t" "c = CHR ''-'' \<or> is_digit c"
proof (cases s)
  case Nil
  then show ?thesis using assms by (simp add: number_token_def scan_number_def)
next
  case (Cons c t)
  have "c = CHR ''-'' \<or> is_digit c"
    using assms Cons
    by (auto simp: number_token_def scan_number_def scan_int_Cons is_digit_def split: if_splits)
  then show ?thesis using Cons that by blast
qed

section \<open>JSON codec: rendered values\<close>

lemma delimited_ends_token: "delimited r \<Longrightarrow> ends_token r"
  by (cases r) (auto simp: delimited_def ends_token_def is_digit_def)

lemma delimited_simps:
  "delimited []" "delimited (CHR '','' # t)" "delimited (CHR 0x0A # t)"
  by (simp_all add: delimited_def)

lemma opens_value_not:
  assumes "opens_value c"
  shows "\<not> is_ws c" "c \<noteq> CHR '']''" "c \<noteq> CHR ''}''"
  using assms by (auto simp: opens_value_def is_ws_def is_digit_def)

lemma skip_ws_opens: "opens_value c \<Longrightarrow> skip_ws (c # t) = c # t"
  by (simp add: skip_ws_def opens_value_not)

lemma skip_ws_space: "skip_ws (CHR 0x20 # t) = skip_ws t"
  by (simp add: skip_ws_def is_ws_def)

lemma skip_ws_newline: "skip_ws (CHR 0x0A # t) = skip_ws t"
  by (simp add: skip_ws_def is_ws_def)

lemma skip_ws_spaces: "skip_ws (replicate k (CHR 0x20) @ t) = skip_ws t"
  by (induction k) (simp_all add: skip_ws_def is_ws_def)

lemma skip_ws_pad: "skip_ws (pad j @ t) = skip_ws t"
  by (simp add: pad_def skip_ws_spaces)

lemma skip_ws_other:
  "c = CHR '','' \<or> c = CHR '']'' \<or> c = CHR ''}'' \<or> c = CHR '':'' \<Longrightarrow> skip_ws (c # t) = c # t"
  by (auto simp: skip_ws_def is_ws_def)

lemma number_token_not_special:
  assumes "number_token s"
  shows "s \<noteq> ''NaN''" "s \<noteq> ''Infinity''" "s \<noteq> ''-Infinity''"
  using assms
  by (auto simp: number_token_def scan_number_def scan_int_Cons is_digit_def)

lemma serialize_number: "number_token s \<Longrightarrow> s \<noteq> ''-0'' \<Longrightarrow> serialize ind (JNum s) = s"
  using number_token_not_special[of s] by simp

lemma serialize_head:
  assumes "json_value lit X"
  obtains c t where "serialize ind X = c # t" "opens_value c"
proof (cases X)
  case (JNum s)
  then have tok: "number_token s" using assms by simp
  show ?thesis
  proof (cases "s = ''-0''")
    case True
    then have "serialize ind X = CHR ''0'' # []" using JNum by simp
    moreover have "opens_value (CHR ''0'')" by (simp add: opens_value_def is_digit_def)
    ultimately show ?thesis using that by blast
  next
    case False
    from tok obtain c t where "s = c # t" "c = CHR ''-'' \<or> is_digit c"
      by (rule number_token_head)
    then have "serialize ind X = c # t" "opens_value c"
      using serialize_number[OF tok False] JNum by (auto simp: opens_value_def)
    then show ?thesis using that by blast
  qed
next
  case (JArr xs ps)
  have "opens_value (CHR ''['')" by (simp add: opens_value_def)
  moreover have "\<exists>t. serialize ind X = CHR ''['' # t"
    using JArr by (simp split: list.splits)
  ultimately show ?thesis using that by blast
next
  case (JObj kvs)
  have "opens_value (CHR ''{'')" by (simp add: opens_value_def)
  moreover have "\<exists>t. serialize ind X = CHR ''{'' # t"
    using JObj by (simp split: list.splits)
  ultimately show ?thesis using that by blast
next
  case (JStr s)
  have "opens_value (CHR 0x22)" by (simp add: opens_value_def)
  moreover have "\<exists>t. serialize ind X = CHR 0x22 # t"
    using JStr by (simp add: quote_def)
  ultimately show ?thesis using that by blast
next
  case (JBool b)
  have "opens_value (CHR ''t'')" "opens_value (CHR ''f'')" by (simp_all add: opens_value_def)
  moreover have "\<exists>t. serialize ind X = (if b then CHR ''t'' else CHR ''f'') # t"
    using JBool by simp
  ultimately show ?thesis using that by (cases b) auto
next
  case JNull
  have "opens_value (CHR ''n'')" by (simp add: opens_value_def)
  moreover have "\<exists>t. serialize ind X = CHR ''n'' # t"
    using JNull by simp
  ultimately show ?thesis using that by blast
next
  case JUndefined
  then show ?thesis using assms by simp
qed

lemma round_tripsD:
  assumes "round_trips lit X" "delimited r" "length (serialize ind X) \<le> n"
  shows "parse_value lit n (serialize ind X @ r) = Some (X, r)"
  using assms unfolding round_trips_def by blast

lemma parse_value_number:
  assumes "number_token s" "lit s = s" "delimited r"
  shows "parse_value lit (Suc n) (s @ r) = Some (JNum s, r)"
proof -
  from assms(1) obtain c t where s: "s = c # t" and c: "c = CHR ''-'' \<or> is_digit c"
    by (rule number_token_head)
  have sc: "scan_number (s @ r) = Some (s, r)"
    using assms(1) delimited_ends_token[OF assms(3)]
    by (simp add: number_token_def scan_number_append)
  have n1: "c \<noteq> CHR ''{''" "c \<noteq> CHR ''[''" "c \<noteq> CHR 0x22" "c \<noteq> CHR ''t''" "c \<noteq> CHR ''f''"
    "c \<noteq> CHR ''n''"
    using c by (auto simp: is_digit_def)
  have "parse_value lit (Suc n) (c # t @ r) = Some (JNum (lit s), r)"
    using n1 sc[unfolded s] s by (simp del: scan_number_def)
  then show ?thesis using s assms(2) by simp
qed

lemma round_trips_atoms:
  "round_trips lit JNull" "round_trips lit (JBool b)" "round_trips lit (JStr s)"
proof -
  have n: "\<And>n. 0 < n \<Longrightarrow> \<exists>m. n = Suc m" by (simp add: gr0_conv_Suc)
  show "round_trips lit JNull"
    unfolding round_trips_def
  proof (intro allI impI)
    fix ind r n assume "length (serialize ind JNull) \<le> n"
    then obtain m where "n = Suc m" using n[of n] by auto
    then show "parse_value lit n (serialize ind JNull @ r) = Some (JNull, r)" by simp
  qed
  show "round_trips lit (JBool b)"
    unfolding round_trips_def
  proof (intro allI impI)
    fix ind r n assume "length (serialize ind (JBool b)) \<le> n"
    then obtain m where "n = Suc m" using n[of n] by (cases b) auto
    then show "parse_value lit n (serialize ind (JBool b) @ r) = Some (JBool b, r)"
      by (cases b) simp_all
  qed
  show "round_trips lit (JStr s)"
    unfolding round_trips_def
  proof (intro allI impI)
    fix ind r n assume "length (serialize ind (JStr s)) \<le> n"
    then obtain m where "n = Suc m" using n[of n] by (auto simp: quote_def)
    then show "parse_value lit n (serialize ind (JStr s) @ r) = Some (JStr s, r)"
      by (simp add: quote_def string_body_quoted)
  qed
qed

lemma round_trips_number:
  assumes "number_token s" "lit s = s" "s \<noteq> ''-0''"
  shows "round_trips lit (JNum s)"
  unfolding round_trips_def
proof (intro allI impI)
  fix ind r n assume d: "delimited r" and l: "length (serialize ind (JNum s)) \<le> n"
  have ser: "serialize ind (JNum s) = s" using assms(1,3) by (rule serialize_number)
  from assms(1) obtain c t where "s = c # t" "c = CHR ''-'' \<or> is_digit c"
    by (rule number_token_head)
  then obtain m where "n = Suc m" using l ser by (cases n) auto
  then show "parse_value lit n (serialize ind (JNum s) @ r) = Some (JNum s, r)"
    unfolding ser using parse_value_number[of s lit r m] assms(1,2) d by simp
qed

section \<open>JSON codec: arrays and objects\<close>

lemma json_values_iff: "json_values lit xs \<longleftrightarrow> (\<forall>x\<in>set xs. json_value lit x)"
  by (induction xs) simp_all

lemma have_negative_zero_iff: "have_negative_zero xs \<longleftrightarrow> (\<exists>x\<in>set xs. has_negative_zero x)"
  by (induction xs) simp_all

lemma json_members_values: "json_members lit kvs \<Longrightarrow> \<forall>kv\<in>set kvs. json_value lit (snd kv)"
  by (induction kvs) force+

lemma members_have_negative_zero_iff:
  "members_have_negative_zero kvs \<longleftrightarrow> (\<exists>kv\<in>set kvs. has_negative_zero (snd kv))"
  by (induction kvs) auto

lemma parse_value_array:
  assumes "skip_ws cs = c # t" "c \<noteq> CHR '']''"
  shows "parse_value lit (Suc n) (CHR ''['' # cs)
           = (case parse_elements lit n (c # t) of
                None \<Rightarrow> None
              | Some (vs, r') \<Rightarrow> Some (JArr vs [], r'))"
  using assms by simp

lemma parse_value_object:
  assumes "skip_ws cs = c # t" "c \<noteq> CHR ''}''"
  shows "parse_value lit (Suc n) (CHR ''{'' # cs)
           = (case parse_members lit n (c # t) of
                None \<Rightarrow> None
              | Some (ms, r') \<Rightarrow> Some (JObj (foldl (\<lambda>m (k, v). AList.update k v m) [] ms), r'))"
  using assms by simp

lemma parse_elements_last:
  assumes "parse_value lit n s = Some (v, r)" "skip_ws r = CHR '']'' # r'"
  shows "parse_elements lit (Suc n) s = Some ([v], r')"
  using assms by simp

lemma parse_elements_more:
  assumes "parse_value lit n s = Some (v, r)" "skip_ws r = CHR '','' # r'"
    "parse_elements lit n (skip_ws r') = Some (vs, r'')"
  shows "parse_elements lit (Suc n) s = Some (v # vs, r'')"
  using assms by simp

lemma parse_members_last:
  assumes "string_body cs = Some (k, r)" "skip_ws r = CHR '':'' # r1"
    "parse_value lit n (skip_ws r1) = Some (v, r2)" "skip_ws r2 = CHR ''}'' # r3"
  shows "parse_members lit (Suc n) (CHR 0x22 # cs) = Some ([(k, v)], r3)"
  using assms by simp

lemma parse_members_more:
  assumes "string_body cs = Some (k, r)" "skip_ws r = CHR '':'' # r1"
    "parse_value lit n (skip_ws r1) = Some (v, r2)" "skip_ws r2 = CHR '','' # r3"
    "parse_members lit n (skip_ws r3) = Some (ms, r4)"
  shows "parse_members lit (Suc n) (CHR 0x22 # cs) = Some ((k, v) # ms, r4)"
  using assms by simp

lemma element_strings_map: "element_strings ind xs = map (serialize ind) xs"
  by (induction xs) simp_all

lemma join_with_Cons:
  "join_with sep (x # xs) = (if xs = [] then x else x @ sep @ join_with sep xs)"
  by (cases xs) simp_all

lemma join_with_head: "join_with sep ((c # u) # strs) = c # join_with sep (u # strs)"
  by (cases strs) simp_all

lemma skip_ws_serialize:
  assumes "json_value lit x"
  shows "skip_ws (serialize ind x @ t) = serialize ind x @ t"
proof -
  from assms obtain c u where "serialize ind x = c # u" "opens_value c"
    by (rule serialize_head)
  then show ?thesis by (simp add: skip_ws_opens)
qed

lemma parse_elements_serialized:
  assumes "\<forall>x\<in>set xs. round_trips lit x" "\<forall>x\<in>set xs. json_value lit x" "xs \<noteq> []"
    and "length (join_with (CHR '','' # CHR 0x0A # pad ind) (map (serialize ind) xs)) < n"
  shows "parse_elements lit n
           (join_with (CHR '','' # CHR 0x0A # pad ind) (map (serialize ind) xs)
              @ CHR 0x0A # pad j @ CHR '']'' # r)
         = Some (xs, r)"
  using assms
proof (induction xs arbitrary: n)
  case Nil
  then show ?case by simp
next
  case (Cons x xs)
  from Cons.prems(4) obtain m where n: "n = Suc m" by (cases n) auto
  have rt: "round_trips lit x" using Cons.prems(1) by simp
  show ?case
  proof (cases "xs = []")
    case True
    have l: "length (serialize ind x) \<le> m" using Cons.prems(4) n True by simp
    have "parse_value lit m (serialize ind x @ CHR 0x0A # pad j @ CHR '']'' # r)
            = Some (x, CHR 0x0A # pad j @ CHR '']'' # r)"
      using rt delimited_simps(3) l by (rule round_tripsD)
    moreover have "skip_ws (CHR 0x0A # pad j @ CHR '']'' # r) = CHR '']'' # r"
      by (simp add: skip_ws_newline skip_ws_pad skip_ws_other)
    ultimately have "parse_elements lit (Suc m)
        (serialize ind x @ CHR 0x0A # pad j @ CHR '']'' # r) = Some ([x], r)"
      by (rule parse_elements_last)
    then show ?thesis using True n by simp
  next
    case False
    let ?sep = "CHR '','' # CHR 0x0A # pad ind"
    let ?rest = "join_with ?sep (map (serialize ind) xs) @ CHR 0x0A # pad j @ CHR '']'' # r"
    have len: "length (serialize ind x) \<le> m" "length (join_with ?sep (map (serialize ind) xs)) < m"
      using Cons.prems(4) n False by (simp_all add: join_with_Cons)
    have a: "parse_value lit m (serialize ind x @ CHR '','' # CHR 0x0A # pad ind @ ?rest)
               = Some (x, CHR '','' # CHR 0x0A # pad ind @ ?rest)"
      using rt delimited_simps(2) len(1) by (rule round_tripsD)
    have b: "skip_ws (CHR '','' # CHR 0x0A # pad ind @ ?rest) = CHR '','' # CHR 0x0A # pad ind @ ?rest"
      by (simp add: skip_ws_other)
    obtain y ys where xs: "xs = y # ys" using False by (cases xs) auto
    have "json_value lit y" using Cons.prems(2) xs by simp
    then have "skip_ws ?rest = ?rest"
      using skip_ws_serialize[of lit y ind] by (simp add: xs join_with_Cons)
    then have c: "skip_ws (CHR 0x0A # pad ind @ ?rest) = ?rest"
      by (simp add: skip_ws_newline skip_ws_pad)
    have "parse_elements lit m ?rest = Some (xs, r)"
      using Cons.prems(1,2) False len(2) by (intro Cons.IH) simp_all
    then have d: "parse_elements lit m (skip_ws (CHR 0x0A # pad ind @ ?rest)) = Some (xs, r)"
      using c by simp
    have "parse_elements lit (Suc m) (serialize ind x @ CHR '','' # CHR 0x0A # pad ind @ ?rest)
            = Some (x # xs, r)"
      using a b d by (rule parse_elements_more)
    then show ?thesis using False n by (simp add: join_with_Cons)
  qed
qed

lemma round_trips_array:
  assumes "\<forall>x\<in>set xs. round_trips lit x" "\<forall>x\<in>set xs. json_value lit x"
  shows "round_trips lit (JArr xs [])"
  unfolding round_trips_def
proof (intro allI impI)
  fix ind r n assume d: "delimited r" and l: "length (serialize ind (JArr xs [])) \<le> n"
  show "parse_value lit n (serialize ind (JArr xs []) @ r) = Some (JArr xs [], r)"
  proof (cases "xs = []")
    case True
    then obtain m where "n = Suc m" using l by (cases n) auto
    then show ?thesis using True by (simp add: skip_ws_other)
  next
    case False
    let ?sep = "CHR '','' # CHR 0x0A # pad (Suc ind)"
    let ?body = "join_with ?sep (map (serialize (Suc ind)) xs)"
    have ser: "serialize ind (JArr xs [])
                 = CHR ''['' # CHR 0x0A # pad (Suc ind) @ ?body @ CHR 0x0A # pad ind @ '']''"
      using False by (simp add: element_strings_map split: list.splits)
    obtain m where n: "n = Suc m" using l ser by (cases n) auto
    have len: "length ?body < m" using l n unfolding ser by simp
    obtain y ys where xs: "xs = y # ys" using False by (cases xs) auto
    have "json_value lit y" using assms(2) xs by simp
    then obtain c u where cu: "serialize (Suc ind) y = c # u" "opens_value c"
      by (rule serialize_head)
    let ?text = "?body @ CHR 0x0A # pad ind @ CHR '']'' # r"
    have "?text = c # join_with ?sep (u # map (serialize (Suc ind)) ys)
                    @ CHR 0x0A # pad ind @ CHR '']'' # r"
      using cu(1) xs by (simp add: join_with_head)
    then obtain t where t: "?text = c # t" by blast
    have "skip_ws ?text = c # t" unfolding t using cu(2) by (rule skip_ws_opens)
    then have sk: "skip_ws (CHR 0x0A # pad (Suc ind) @ ?text) = c # t"
      by (simp only: skip_ws_newline skip_ws_pad)
    have pe: "parse_elements lit m ?text = Some (xs, r)"
      using assms False len by (rule parse_elements_serialized)
    have "parse_value lit (Suc m) (CHR ''['' # CHR 0x0A # pad (Suc ind) @ ?text)
            = (case parse_elements lit m (c # t) of
                 None \<Rightarrow> None | Some (vs, r') \<Rightarrow> Some (JArr vs [], r'))"
      using sk opens_value_not(2)[OF cu(2)] by (rule parse_value_array)
    then have "parse_value lit (Suc m) (CHR ''['' # CHR 0x0A # pad (Suc ind) @ ?text)
                 = Some (JArr xs [], r)"
      using pe t by simp
    then show ?thesis unfolding ser n by simp
  qed
qed

lemma member_strings_map:
  "\<forall>kv\<in>set kvs. json_value lit (snd kv) \<Longrightarrow> member_strings ind kvs = map (member_string ind) kvs"
  by (induction kvs) (auto simp: member_string_def)

lemma member_string_shape:
  "member_string ind (k, v) @ R
     = CHR 0x22 # (concat (map escape_char k) @ CHR 0x22 # CHR '':'' # CHR 0x20 # serialize ind v @ R)"
  by (simp add: member_string_def quote_def)

lemma length_member_string: "length (serialize ind v) < length (member_string ind (k, v))"
  by (simp add: member_string_def quote_def)

lemma parse_members_serialized:
  assumes "\<forall>kv\<in>set kvs. round_trips lit (snd kv)" "\<forall>kv\<in>set kvs. json_value lit (snd kv)"
    "kvs \<noteq> []"
    and "length (join_with (CHR '','' # CHR 0x0A # pad ind) (map (member_string ind) kvs)) < n"
  shows "parse_members lit n
           (join_with (CHR '','' # CHR 0x0A # pad ind) (map (member_string ind) kvs)
              @ CHR 0x0A # pad j @ CHR ''}'' # r)
         = Some (kvs, r)"
  using assms
proof (induction kvs arbitrary: n)
  case Nil
  then show ?case by simp
next
  case (Cons kv kvs)
  obtain k v where kv: "kv = (k, v)" by (cases kv)
  from Cons.prems(4) obtain m where n: "n = Suc m" by (cases n) auto
  have rt: "round_trips lit v" using Cons.prems(1) kv by simp
  have jv: "json_value lit v" using Cons.prems(2) kv by simp
  let ?sep = "CHR '','' # CHR 0x0A # pad ind"
  have step: "parse_members lit (Suc m) (member_string ind (k, v) @ R) = Some ((k, v) # ms, r')"
    if "length (serialize ind v) \<le> m" "delimited R" "skip_ws R = CHR '','' # r3"
      "parse_members lit m (skip_ws r3) = Some (ms, r')" for R r3 ms r'
  proof -
    have a: "string_body (concat (map escape_char k) @ CHR 0x22
                # CHR '':'' # CHR 0x20 # serialize ind v @ R)
             = Some (k, CHR '':'' # CHR 0x20 # serialize ind v @ R)"
      by (rule string_body_quoted)
    have b: "skip_ws (CHR '':'' # CHR 0x20 # serialize ind v @ R)
               = CHR '':'' # CHR 0x20 # serialize ind v @ R"
      by (simp add: skip_ws_other)
    have c: "skip_ws (CHR 0x20 # serialize ind v @ R) = serialize ind v @ R"
      using skip_ws_serialize[OF jv] by (simp add: skip_ws_space)
    have "parse_value lit m (serialize ind v @ R) = Some (v, R)"
      using rt that(2,1) by (rule round_tripsD)
    then have d: "parse_value lit m (skip_ws (CHR 0x20 # serialize ind v @ R)) = Some (v, R)"
      using c by simp
    show ?thesis unfolding member_string_shape
      using a b d that(3,4) by (rule parse_members_more)
  qed
  have last: "parse_members lit (Suc m) (member_string ind (k, v) @ R) = Some ([(k, v)], r')"
    if "length (serialize ind v) \<le> m" "delimited R" "skip_ws R = CHR ''}'' # r'" for R r'
  proof -
    have a: "string_body (concat (map escape_char k) @ CHR 0x22
                # CHR '':'' # CHR 0x20 # serialize ind v @ R)
             = Some (k, CHR '':'' # CHR 0x20 # serialize ind v @ R)"
      by (rule string_body_quoted)
    have b: "skip_ws (CHR '':'' # CHR 0x20 # serialize ind v @ R)
               = CHR '':'' # CHR 0x20 # serialize ind v @ R"
      by (simp add: skip_ws_other)
    have c: "skip_ws (CHR 0x20 # serialize ind v @ R) = serialize ind v @ R"
      using skip_ws_serialize[OF jv] by (simp add: skip_ws_space)
    have "parse_value lit m (serialize ind v @ R) = Some (v, R)"
      using rt that(2,1) by (rule round_tripsD)
    then have d: "parse_value lit m (skip_ws (CHR 0x20 # serialize ind v @ R)) = Some (v, R)"
      using c by simp
    show ?thesis unfolding member_string_shape
      using a b d that(3) by (rule parse_members_last)
  qed
  show ?case
  proof (cases "kvs = []")
    case True
    have l: "length (serialize ind v) \<le> m"
      using Cons.prems(4) n True kv length_member_string[of ind v k] by simp
    have "skip_ws (CHR 0x0A # pad j @ CHR ''}'' # r) = CHR ''}'' # r"
      by (simp add: skip_ws_newline skip_ws_pad skip_ws_other)
    with l delimited_simps(3)
    have "parse_members lit (Suc m) (member_string ind (k, v) @ CHR 0x0A # pad j @ CHR ''}'' # r)
            = Some ([(k, v)], r)"
      by (rule last)
    then show ?thesis using True n kv by simp
  next
    case False
    let ?rest = "join_with ?sep (map (member_string ind) kvs) @ CHR 0x0A # pad j @ CHR ''}'' # r"
    have len: "length (serialize ind v) \<le> m"
      "length (join_with ?sep (map (member_string ind) kvs)) < m"
      using Cons.prems(4) n False kv length_member_string[of ind v k]
      by (simp_all add: join_with_Cons)
    have b: "skip_ws (CHR '','' # CHR 0x0A # pad ind @ ?rest) = CHR '','' # CHR 0x0A # pad ind @ ?rest"
      by (simp add: skip_ws_other)
    obtain y ys where ys: "kvs = y # ys" using False by (cases kvs) auto
    have "?rest = CHR 0x22 # join_with ?sep ((concat (map escape_char (fst y)) @ CHR 0x22
                     # CHR '':'' # CHR 0x20 # serialize ind (snd y)) # map (member_string ind) ys)
                   @ CHR 0x0A # pad j @ CHR ''}'' # r"
      by (simp add: ys member_string_def quote_def join_with_head)
    moreover have "opens_value (CHR 0x22)" by (simp add: opens_value_def)
    ultimately have "skip_ws ?rest = ?rest" by (simp only: skip_ws_opens)
    then have c: "skip_ws (CHR 0x0A # pad ind @ ?rest) = ?rest"
      by (simp add: skip_ws_newline skip_ws_pad)
    have "parse_members lit m ?rest = Some (kvs, r)"
      using Cons.prems(1,2) False len(2) by (intro Cons.IH) simp_all
    then have d: "parse_members lit m (skip_ws (CHR 0x0A # pad ind @ ?rest)) = Some (kvs, r)"
      using c by simp
    have "parse_members lit (Suc m) (member_string ind (k, v) @ CHR '','' # CHR 0x0A # pad ind @ ?rest)
            = Some ((k, v) # kvs, r)"
      using len(1) delimited_simps(2) b d by (rule step)
    then show ?thesis using False n kv by (simp add: join_with_Cons)
  qed
qed

lemma update_fresh: "k \<notin> fst ` set m \<Longrightarrow> AList.update k v m = m @ [(k, v)]"
  by (induction m) auto

lemma foldl_update_distinct:
  "distinct (map fst (m @ ms))
     \<Longrightarrow> foldl (\<lambda>m (k, v). AList.update k v m) m ms = m @ ms"
proof (induction ms arbitrary: m)
  case Nil
  show ?case by simp
next
  case (Cons kv ms)
  obtain k v where kv: "kv = (k, v)" by (cases kv)
  have "AList.update k v m = m @ [(k, v)]" using Cons.prems kv by (intro update_fresh) auto
  moreover have "distinct (map fst ((m @ [(k, v)]) @ ms))" using Cons.prems kv by simp
  ultimately show ?case using Cons.IH[of "m @ [(k, v)]"] kv by simp
qed

lemma round_trips_object:
  assumes "\<forall>kv\<in>set kvs. round_trips lit (snd kv)" "\<forall>kv\<in>set kvs. json_value lit (snd kv)"
    "distinct (map fst kvs)"
  shows "round_trips lit (JObj kvs)"
  unfolding round_trips_def
proof (intro allI impI)
  fix ind r n assume d: "delimited r" and l: "length (serialize ind (JObj kvs)) \<le> n"
  show "parse_value lit n (serialize ind (JObj kvs) @ r) = Some (JObj kvs, r)"
  proof (cases "kvs = []")
    case True
    then obtain m where "n = Suc m" using l by (cases n) auto
    then show ?thesis using True by (simp add: skip_ws_other)
  next
    case False
    let ?sep = "CHR '','' # CHR 0x0A # pad (Suc ind)"
    let ?body = "join_with ?sep (map (member_string (Suc ind)) kvs)"
    have ser: "serialize ind (JObj kvs)
                 = CHR ''{'' # CHR 0x0A # pad (Suc ind) @ ?body @ CHR 0x0A # pad ind @ ''}''"
      using False member_strings_map[OF assms(2), of "Suc ind"] by (simp split: list.splits)
    obtain m where n: "n = Suc m" using l ser by (cases n) auto
    have len: "length ?body < m" using l n unfolding ser by simp
    obtain y ys where ys: "kvs = y # ys" using False by (cases kvs) auto
    let ?text = "?body @ CHR 0x0A # pad ind @ CHR ''}'' # r"
    have "?text = CHR 0x22 # join_with ?sep ((concat (map escape_char (fst y)) @ CHR 0x22
                     # CHR '':'' # CHR 0x20 # serialize (Suc ind) (snd y))
                       # map (member_string (Suc ind)) ys)
                   @ CHR 0x0A # pad ind @ CHR ''}'' # r"
      by (simp add: ys member_string_def quote_def join_with_head)
    then obtain t where t: "?text = CHR 0x22 # t" by blast
    have q: "opens_value (CHR 0x22)" by (simp add: opens_value_def)
    have "skip_ws ?text = CHR 0x22 # t" unfolding t using q by (rule skip_ws_opens)
    then have sk: "skip_ws (CHR 0x0A # pad (Suc ind) @ ?text) = CHR 0x22 # t"
      by (simp only: skip_ws_newline skip_ws_pad)
    have pe: "parse_members lit m ?text = Some (kvs, r)"
      using assms(1,2) False len by (rule parse_members_serialized)
    have "parse_value lit (Suc m) (CHR ''{'' # CHR 0x0A # pad (Suc ind) @ ?text)
            = (case parse_members lit m (CHR 0x22 # t) of
                 None \<Rightarrow> None
               | Some (ms, r') \<Rightarrow>
                   Some (JObj (foldl (\<lambda>m (k, v). AList.update k v m) [] ms), r'))"
      using sk opens_value_not(3)[OF q] by (rule parse_value_object)
    then have "parse_value lit (Suc m) (CHR ''{'' # CHR 0x0A # pad (Suc ind) @ ?text)
                 = Some (JObj kvs, r)"
      using pe t foldl_update_distinct[of "[]" kvs] assms(3) by simp
    then show ?thesis unfolding ser n by simp
  qed
qed

section \<open>JSON codec: the round trip\<close>

lemma json_value_round_trips:
  "json_value lit X \<Longrightarrow> \<not> has_negative_zero X \<Longrightarrow> round_trips lit X"
proof (induction X)
  case (JArr xs ps)
  have ps: "ps = []" using JArr.prems by simp
  have jv: "\<forall>x\<in>set xs. json_value lit x" using JArr.prems by (simp add: json_values_iff)
  have nz: "\<forall>x\<in>set xs. \<not> has_negative_zero x"
    using JArr.prems by (simp add: have_negative_zero_iff)
  have "\<forall>x\<in>set xs. round_trips lit x" using JArr.IH(1) jv nz by blast
  then show ?case unfolding ps using jv by (rule round_trips_array)
next
  case (JObj kvs)
  have jv: "\<forall>kv\<in>set kvs. json_value lit (snd kv)"
    using JObj.prems by (intro json_members_values) simp
  have nz: "\<forall>kv\<in>set kvs. \<not> has_negative_zero (snd kv)"
    using JObj.prems by (simp add: members_have_negative_zero_iff)
  have "\<forall>kv\<in>set kvs. round_trips lit (snd kv)"
  proof
    fix kv assume "kv \<in> set kvs"
    moreover have "snd kv \<in> Basic_BNFs.snds kv" by (cases kv) simp
    ultimately show "round_trips lit (snd kv)" using JObj.IH jv nz by blast
  qed
  then show ?case using jv JObj.prems by (intro round_trips_object) simp_all
next
  case (JNum s)
  then show ?case by (simp add: round_trips_number)
qed (simp_all add: round_trips_atoms)

lemma parse_stringify:
  assumes "json_value lit X" "\<not> has_negative_zero X"
  shows "\<exists>text. stringify X = Some text \<and> parse lit text = Some X"
proof -
  have u: "X \<noteq> JUndefined" using assms(1) by auto
  from assms(1) obtain c t where ct: "serialize 0 X = c # t" "opens_value c"
    by (rule serialize_head)
  have sk: "skip_ws (serialize 0 X) = serialize 0 X" unfolding ct using ct(2) by (rule skip_ws_opens)
  have "parse_value lit (Suc (length (serialize 0 X))) (serialize 0 X @ []) = Some (X, [])"
    using json_value_round_trips[OF assms] delimited_simps(1) by (rule round_tripsD) simp
  then have pv: "parse_value lit (Suc (length (serialize 0 X))) (skip_ws (serialize 0 X))
                   = Some (X, [])"
    unfolding sk by (simp only: append_Nil2)
  have "parse lit (serialize 0 X) = Some X"
    unfolding parse_def pv by (simp add: skip_ws_def)
  then show ?thesis using u by (simp add: stringify_def)
qed

section \<open>Project writer: what is read back\<close>

text \<open>
  What \<open>writePackageJson\<close> writes is the whole text that \<^verbatim>\<open>JSON.stringify\<close> renders, at the path
  that \<open>loadPackageJson\<close> reads: after a write that the file system accepts, reading the
  descriptor parses exactly that text.
\<close>

lemma writePackageJson_then_loadPackageJson:
  assumes "JSON_stringify w X = Some text"
    and "write_error w (path_join [p, ''package.json'']) = None"
  shows "snd (writePackageJson w p X) = Fulfilled X"
    and "loadPackageJson (fst (writePackageJson w p X)) p
           = (case JSON_parse w text of None \<Rightarrow> Pending | Some v \<Rightarrow> Fulfilled v)"
  using assms
  by (simp_all add: writePackageJson_def write_json_def loadPackageJson_def read_json_def)

text \<open>
  Claim C6, as the specification states it: writing a JSON value \<open>X\<close> as the descriptor
  and reading the descriptor yields \<open>X\<close>. It fails on a descriptor that holds negative
  zero, which is a JSON value (the text \<^verbatim>\<open>-0\<close> parses to it): \<^verbatim>\<open>JSON.stringify\<close> renders it as \<^verbatim>\<open>0\<close>,
  and what is read back holds zero.
\<close>

theorem writePackageJson_round_trip_counterexample:
  "runtime_codec (\<lambda>t. t) writer_world
   \<and> json_value (\<lambda>t. t) negative_zero_json
   \<and> parse (\<lambda>t. t) ''-0'' = Some (JNum ''-0'')
   \<and> snd (writePackageJson writer_world ''/a'' negative_zero_json) = Fulfilled negative_zero_json
   \<and> loadPackageJson (fst (writePackageJson writer_world ''/a'' negative_zero_json)) ''/a''
       = Fulfilled (JObj [(''name'', JStr ''n''), (''offset'', JNum ''0'')])
   \<and> JObj [(''name'', JStr ''n''), (''offset'', JNum ''0'')] \<noteq> negative_zero_json"
proof -
  have "runtime_codec (\<lambda>t. t) writer_world" by (simp add: runtime_codec_def writer_world_def)
  moreover have "json_value (\<lambda>t. t) negative_zero_json" by code_simp
  moreover have "parse (\<lambda>t. t) ''-0'' = Some (JNum ''-0'')" by code_simp
  moreover have "snd (writePackageJson writer_world ''/a'' negative_zero_json)
      = Fulfilled negative_zero_json" by code_simp
  moreover have "loadPackageJson (fst (writePackageJson writer_world ''/a'' negative_zero_json)) ''/a''
      = Fulfilled (JObj [(''name'', JStr ''n''), (''offset'', JNum ''0'')])" by code_simp
  moreover have "JObj [(''name'', JStr ''n''), (''offset'', JNum ''0'')] \<noteq> negative_zero_json"
    by (simp add: negative_zero_json_def)
  ultimately show ?thesis by blast
qed

text \<open>
  Claim C6, amended. Under the codec of the engine, for every project path whose
  descriptor file can be written and every JSON value \<open>X\<close> that holds no negative zero,
  \<open>writePackageJson\<close> fulfils with \<open>X\<close>, and \<open>loadPackageJson\<close> on the resulting disk fulfils with
  \<open>X\<close>.
\<close>

theorem writePackageJson_round_trip:
  assumes "runtime_codec lit w"
    and "json_value lit X"
    and "\<not> has_negative_zero X"
    and "write_error w (path_join [p, ''package.json'']) = None"
  shows "snd (writePackageJson w p X) = Fulfilled X
         \<and> loadPackageJson (fst (writePackageJson w p X)) p = Fulfilled X"
proof -
  from parse_stringify[OF assms(2,3)]
  obtain rendered where t: "stringify X = Some rendered" and q: "parse lit rendered = Some X"
    by blast
  have s: "JSON_stringify w X = Some rendered" using assms(1) t by (simp add: runtime_codec_def)
  have r: "JSON_parse w rendered = Some X" using assms(1) q by (simp add: runtime_codec_def)
  from writePackageJson_then_loadPackageJson[OF s assms(4)] r show ?thesis by simp
qed

theorem writePackageJson_round_trip_witness:
  "runtime_codec (\<lambda>t. t) writer_world
   \<and> json_value (\<lambda>t. t) written_json
   \<and> \<not> has_negative_zero written_json
   \<and> write_error writer_world (path_join [''/a'', ''package.json'']) = None
   \<and> snd (writePackageJson writer_world ''/a'' written_json) = Fulfilled written_json
   \<and> loadPackageJson (fst (writePackageJson writer_world ''/a'' written_json)) ''/a''
       = Fulfilled written_json"
proof -
  have c: "runtime_codec (\<lambda>t. t) writer_world" by (simp add: runtime_codec_def writer_world_def)
  have j: "json_value (\<lambda>t. t) written_json" by code_simp
  have z: "\<not> has_negative_zero written_json" by code_simp
  have e: "write_error writer_world (path_join [''/a'', ''package.json'']) = None"
    by (simp add: writer_world_def)
  from writePackageJson_round_trip[OF c j z e] c j z e show ?thesis by blast
qed

end
